theory Spec2Isabelle
  imports Complex_Main
begin

section \<open>The feed script \<^verbatim>\<open>static/js/style.js\<close>\<close>

text \<open>
  The script is one \<^verbatim>\<open>DOMContentLoaded\<close> callback.  It captures a few elements, registers
  listeners on them, and from then on only reacts: to socket events, to clicks, key presses
  and form submits, to the mutation observer and to the intersection observer.  The model
  below is a page state (the document tree, the element properties the script reads and
  writes, the closure variables of the callback, the listeners it registered, the events
  it emitted) and one function per handler, each written after the lines it stands for.
\<close>

subsection \<open>Strings and numbers\<close>

text \<open>
  A JavaScript string is a sequence of UTF-16 code units.  Names fixed by the script
  (tags, classes, attribute names) are written as HOL strings; every text that comes from
  the page or from an event is a list of code units, and \<open>str\<close> embeds a literal.
\<close>

type_synonym jsstring = "nat list"

definition str :: "string \<Rightarrow> jsstring" where
  "str s = map of_char s"

text \<open>The code units that \<^verbatim>\<open>String.prototype.trim\<close> and \<^verbatim>\<open>parseInt\<close> skip: the
  ECMAScript white space and line terminators.\<close>

definition isWhiteSpace :: "nat \<Rightarrow> bool" where
  "isWhiteSpace c \<longleftrightarrow>
     c \<in> set [9, 10, 11, 12, 13, 32, 160, 5760, 8232, 8233, 8239, 8287, 12288, 65279]
     \<or> (8192 \<le> c \<and> c \<le> 8202)"

definition trim :: "jsstring \<Rightarrow> jsstring" where
  "trim s = rev (dropWhile isWhiteSpace (rev (dropWhile isWhiteSpace s)))"

function decimal :: "nat \<Rightarrow> jsstring" where
  "decimal n = (if n < 10 then [48 + n] else decimal (n div 10) @ [48 + n mod 10])"
  by pat_completeness auto
termination
  by (relation "measure id") auto

declare decimal.simps [simp del]

text \<open>\<^verbatim>\<open>String(n)\<close> for an integral number \<open>n\<close>.  Numbers are kept as mathematical
  integers.  The script computes with doubles, which hold every integer up to \<open>2^53\<close> in
  magnitude and print it digit by digit; beyond, a double rounds, and from \<open>10^21\<close> on it
  prints with an exponent.  So \<open>toString\<close> and \<open>parseInt\<close> stand for the script's
  conversions on numbers up to \<open>2^53\<close> in magnitude only, and the properties that depend on
  a number say so.\<close>

definition toString :: "int \<Rightarrow> jsstring" where
  "toString i = (if i < 0 then 45 # decimal (nat (- i)) else decimal (nat i))"

definition digit_value :: "nat \<Rightarrow> nat option" where
  "digit_value c =
     (if 48 \<le> c \<and> c \<le> 57 then Some (c - 48)
      else if 97 \<le> c \<and> c \<le> 122 then Some (c - 87)
      else if 65 \<le> c \<and> c \<le> 90 then Some (c - 55)
      else None)"

definition is_digit :: "nat \<Rightarrow> nat \<Rightarrow> bool" where
  "is_digit radix c = (case digit_value c of Some d \<Rightarrow> d < radix | None \<Rightarrow> False)"

definition digits_value :: "nat \<Rightarrow> jsstring \<Rightarrow> nat" where
  "digits_value radix ds =
     foldl (\<lambda>a c. case digit_value c of Some d \<Rightarrow> a * radix + d | None \<Rightarrow> a) 0 ds"

text \<open>\<^verbatim>\<open>parseInt(s)\<close> with no radix argument: leading white space, a sign, an optional
  \<^verbatim>\<open>0x\<close> prefix, then the longest run of digits; \<open>None\<close> is \<^verbatim>\<open>NaN\<close>.\<close>

definition parseInt :: "jsstring \<Rightarrow> int option" where
  "parseInt s =
     (let s1 = dropWhile isWhiteSpace s;
          neg = (s1 \<noteq> [] \<and> hd s1 = 45);
          s2 = (if s1 \<noteq> [] \<and> (hd s1 = 43 \<or> hd s1 = 45) then tl s1 else s1);
          hex = (case s2 of a # b # _ \<Rightarrow> a = 48 \<and> (b = 120 \<or> b = 88) | _ \<Rightarrow> False);
          radix = (if hex then 16 else 10);
          s3 = (if hex then drop 2 s2 else s2);
          ds = takeWhile (is_digit radix) s3
      in if ds = [] then None
         else Some ((if neg then - 1 else 1) * int (digits_value radix ds)))"

subsection \<open>The document\<close>

text \<open>
  A node has an identity (the object a JavaScript reference points to), a name
  (\<^verbatim>\<open>#text\<close> for a text node), its class list, its attributes, its character data (text
  nodes only) and its children.  The document is the list of its top-level nodes.
\<close>

datatype node = Node (ident: nat) (localName: string) (classList: "string list")
  (attributes: "(string \<times> jsstring) list") (data: jsstring) (childNodes: "node list")

definition text_node :: "nat \<Rightarrow> jsstring \<Rightarrow> node" where
  "text_node i s = Node i ''#text'' [] [] s []"

definition createElement :: "nat \<Rightarrow> string \<Rightarrow> node" where
  "createElement i t = Node i t [] [] [] []"

fun with_children :: "node list \<Rightarrow> node \<Rightarrow> node" where
  "with_children ks' (Node i t cs as d ks) = Node i t cs as d ks'"

fun with_classes :: "string list \<Rightarrow> node \<Rightarrow> node" where
  "with_classes cs' (Node i t cs as d ks) = Node i t cs' as d ks"

fun textContent :: "node \<Rightarrow> jsstring" where
  "textContent (Node i t cs as d ks) =
     (if t = ''#text'' then d else concat (map textContent ks))"

text \<open>Assigning \<^verbatim>\<open>textContent\<close> replaces the children by one text node (by none for the
  empty string); \<open>i\<close> is the identity of the new text node.\<close>

definition set_textContent :: "nat \<Rightarrow> jsstring \<Rightarrow> node \<Rightarrow> node" where
  "set_textContent i s n = with_children (if s = [] then [] else [text_node i s]) n"

definition appendChild :: "node \<Rightarrow> node \<Rightarrow> node" where
  "appendChild child n = with_children (childNodes n @ [child]) n"

definition insert_children :: "nat \<Rightarrow> node list \<Rightarrow> node \<Rightarrow> node" where
  "insert_children k new n =
     with_children (take k (childNodes n) @ new @ drop k (childNodes n)) n"

text \<open>\<open>find_first P\<close> is \<^verbatim>\<open>querySelector\<close>: the first node in document order that
  satisfies \<open>P\<close>.  On \<open>childNodes n\<close> it is \<^verbatim>\<open>n.querySelector\<close>, which looks at
  descendants only.\<close>

fun find_first :: "(node \<Rightarrow> bool) \<Rightarrow> node list \<Rightarrow> node option" where
  "find_first P [] = None"
| "find_first P (Node i t cs as d ks # ns) =
     (if P (Node i t cs as d ks) then Some (Node i t cs as d ks)
      else case find_first P ks of
             Some n \<Rightarrow> Some n
           | None \<Rightarrow> find_first P ns)"

text \<open>\<open>update_first P f\<close> changes, in place, the node that \<open>find_first P\<close> returns: it is
  how a write through a reference obtained from \<^verbatim>\<open>querySelector\<close> reaches the tree.\<close>

fun update_first :: "(node \<Rightarrow> bool) \<Rightarrow> (node \<Rightarrow> node) \<Rightarrow> node list \<Rightarrow> node list" where
  "update_first P f [] = []"
| "update_first P f (Node i t cs as d ks # ns) =
     (if P (Node i t cs as d ks) then f (Node i t cs as d ks) # ns
      else if find_first P ks \<noteq> None then Node i t cs as d (update_first P f ks) # ns
      else Node i t cs as d ks # update_first P f ns)"

text \<open>\<open>select_inside A P False\<close> is \<^verbatim>\<open>querySelectorAll\<close> for a selector \<^verbatim>\<open>A P\<close> with a
  descendant combinator: the nodes satisfying \<open>P\<close> below a node satisfying \<open>A\<close>, in
  document order.  \<open>find_all P\<close> is \<^verbatim>\<open>querySelectorAll\<close> for a simple selector.\<close>

fun select_inside :: "(node \<Rightarrow> bool) \<Rightarrow> (node \<Rightarrow> bool) \<Rightarrow> bool \<Rightarrow> node list \<Rightarrow> node list" where
  "select_inside A P inside [] = []"
| "select_inside A P inside (Node i t cs as d ks # ns) =
     (if inside \<and> P (Node i t cs as d ks) then [Node i t cs as d ks] else [])
     @ select_inside A P (inside \<or> A (Node i t cs as d ks)) ks
     @ select_inside A P inside ns"

definition find_all :: "(node \<Rightarrow> bool) \<Rightarrow> node list \<Rightarrow> node list" where
  "find_all P ns = select_inside (\<lambda>n. False) P True ns"

fun idents :: "node list \<Rightarrow> nat list" where
  "idents [] = []"
| "idents (Node i t cs as d ks # ns) = i # idents ks @ idents ns"

text \<open>An identity that no node of \<open>ns\<close> has and that is not below \<open>n\<close>.\<close>

definition unused_after :: "node list \<Rightarrow> nat \<Rightarrow> nat" where
  "unused_after ns n = fold max (map Suc (idents ns)) n"

definition has_ident :: "nat \<Rightarrow> node \<Rightarrow> bool" where
  "has_ident i n \<longleftrightarrow> ident n = i"

text \<open>Selectors match elements, never text nodes.\<close>

definition is_element :: "node \<Rightarrow> bool" where
  "is_element n \<longleftrightarrow> localName n \<noteq> ''#text''"

definition has_id :: "string \<Rightarrow> node \<Rightarrow> bool" where
  "has_id x n \<longleftrightarrow> is_element n \<and> map_of (attributes n) ''id'' = Some (str x)"

definition has_class :: "string \<Rightarrow> node \<Rightarrow> bool" where
  "has_class c n \<longleftrightarrow> is_element n \<and> c \<in> set (classList n)"

definition has_name :: "string \<Rightarrow> node \<Rightarrow> bool" where
  "has_name t n \<longleftrightarrow> localName n = t"

text \<open>The selector \<^verbatim>\<open>.post[data-post-id="x"]\<close>.\<close>

definition is_post_with_id :: "jsstring \<Rightarrow> node \<Rightarrow> bool" where
  "is_post_with_id x n \<longleftrightarrow>
     has_class ''post'' n \<and> map_of (attributes n) ''data-post-id'' = Some x"

text \<open>The selector \<^verbatim>\<open>input[name="comment"]\<close>.\<close>

definition is_comment_input :: "node \<Rightarrow> bool" where
  "is_comment_input n \<longleftrightarrow>
     has_name ''input'' n \<and> map_of (attributes n) ''name'' = Some (str ''comment'')"

text \<open>A selector is shallow when it looks at the node itself and not at its children;
  every selector of the script is.\<close>

definition shallow :: "(node \<Rightarrow> bool) \<Rightarrow> bool" where
  "shallow P \<longleftrightarrow> (\<forall>n ks. P (with_children ks n) = P n)"

subsection \<open>The page\<close>

datatype error = TypeError

datatype scroll = Offset nat | Bottom

datatype emitted =
    Send_message (to_recipient: jsstring) (message_content: jsstring)
  | Send_comment (to_post: "int option") (comment_content: jsstring)

record comment =
  post_id :: int
  username :: jsstring
  content :: jsstring

record message =
  sender :: jsstring
  recipient :: jsstring
  body :: jsstring

text \<open>An \<^verbatim>\<open>IntersectionObserverEntry\<close>.  The ratio is the exact value of the double the
  browser reports.  \<open>autoplay\<close> is the browser's decision on the \<^verbatim>\<open>play()\<close> call this entry
  may lead to: \<open>False\<close> when it rejects the promise and playback does not start.\<close>

record entry =
  target :: nat
  isIntersecting :: bool
  intersectionRatio :: rat
  autoplay :: bool

record mutation =
  addedNodes :: "node list"

text \<open>
  The page.  \<open>input_value\<close>, \<open>paused\<close> and \<open>scrollTop\<close> are the element properties
  \<^verbatim>\<open>value\<close>, \<^verbatim>\<open>paused\<close> and \<^verbatim>\<open>scrollTop\<close>, by element identity; \<open>Bottom\<close> is the offset an element
  has after \<^verbatim>\<open>scrollTop = scrollHeight\<close>.  \<open>outbox\<close> is what \<^verbatim>\<open>socket.emit\<close> was called
  with, oldest first.  The fields from
  \<open>currentUsername\<close> to \<open>current\<close> are the variables of the callback; an element reference
  is an identity, \<^verbatim>\<open>null\<close> is \<open>None\<close>.  \<open>submit_listeners\<close> lists the forms that
  \<^verbatim>\<open>bindCommentForm\<close> was called on (once per call), \<open>img_listeners\<close> the images with the click
  listener of line 141, \<open>observed\<close> the targets of the intersection observer.
\<close>

record page =
  document :: "node list"
  next_ident :: nat
  input_value :: "nat \<Rightarrow> jsstring"
  paused :: "nat \<Rightarrow> bool"
  scrollTop :: "nat \<Rightarrow> scroll"
  outbox :: "emitted list"
  currentUsername :: "jsstring option"
  postsContainer :: "nat option"
  input :: "nat option"
  btn :: "nat option"
  messagesDiv :: "nat option"
  videos :: "nat list"
  current :: "nat option"
  submit_listeners :: "nat list"
  img_listeners :: "nat list"
  observed :: "nat list"

subsection \<open>Comment forms (lines 86--98)\<close>

definition bindCommentForm :: "nat \<Rightarrow> page \<Rightarrow> page" where
  "bindCommentForm form p = p\<lparr>submit_listeners := submit_listeners p @ [form]\<rparr>"

text \<open>The submit listener.  A submit event reaches a form that is in the document; the
  listener looks for the input inside the form and reads its value without a check.\<close>

definition on_submit :: "nat \<Rightarrow> page \<Rightarrow> error option \<times> page" where
  "on_submit form p =
     (case find_first (has_ident form) (document p) of
        None \<Rightarrow> (None, p)
      | Some f \<Rightarrow>
          (case find_first is_comment_input (childNodes f) of
             None \<Rightarrow> (Some TypeError, p)
           | Some inp \<Rightarrow>
               let content = trim (input_value p (ident inp)) in
               if content \<noteq> [] then
                 let postId = map_of (attributes f) ''data-post-id'' in
                 (None, p\<lparr>outbox := outbox p @
                             [Send_comment (case postId of None \<Rightarrow> None | Some s \<Rightarrow> parseInt s)
                                content],
                          input_value := (input_value p)(ident inp := [])\<rparr>)
               else (None, p)))"

text \<open>A listener that was added \<open>k\<close> times runs \<open>k\<close> times; an exception in one run is
  reported and does not stop the next.\<close>

fun dispatch :: "nat \<Rightarrow> (page \<Rightarrow> error option \<times> page) \<Rightarrow> page \<Rightarrow> error option \<times> page" where
  "dispatch 0 h p = (None, p)"
| "dispatch (Suc k) h p =
     (case h p of (e, q) \<Rightarrow>
        (case dispatch k h q of (e', r) \<Rightarrow> ((if e = None then e' else e), r)))"

subsection \<open>The mutation observer (lines 5--22, 148--150)\<close>

definition observeVideo :: "nat \<Rightarrow> page \<Rightarrow> page" where
  "observeVideo v p = p"

definition on_added :: "node \<Rightarrow> page \<Rightarrow> page" where
  "on_added node p =
     (if has_class ''post'' node then
        let p1 = (case find_first (has_class ''comment-form'') (childNodes node) of
                    Some commentForm \<Rightarrow> bindCommentForm (ident commentForm) p
                  | None \<Rightarrow> p);
            vids = find_all (has_name ''video'') (childNodes node)
        in fold (\<lambda>v. observeVideo (ident v)) vids p1
      else p)"

definition mutationObserver :: "mutation list \<Rightarrow> page \<Rightarrow> page" where
  "mutationObserver mutations p = fold (\<lambda>m. fold on_added (addedNodes m)) mutations p"

text \<open>The observer watches the container with \<^verbatim>\<open>subtree: true\<close>: it is told of children
  added to the container or to any node below it.\<close>

definition watched :: "page \<Rightarrow> nat \<Rightarrow> bool" where
  "watched p parent =
     (case postsContainer p of
        None \<Rightarrow> False
      | Some c \<Rightarrow>
          (case find_first (has_ident c) (document p) of
             None \<Rightarrow> False
           | Some cn \<Rightarrow> find_first (has_ident parent) [cn] \<noteq> None))"

text \<open>Something other than this script (the page's other scripts, the server's template)
  puts \<open>new\<close> under the element \<open>parent\<close>, before its \<open>k\<close>-th child.  The observer then gets
  one record, with the nodes that were put there themselves as \<open>addedNodes\<close>.\<close>

definition inserted :: "nat \<Rightarrow> nat \<Rightarrow> node list \<Rightarrow> page \<Rightarrow> page" where
  "inserted parent k new p =
     (case find_first (has_ident parent) (document p) of
        None \<Rightarrow> p
      | Some par \<Rightarrow>
          let p1 = p\<lparr>document := update_first (has_ident parent) (insert_children k new)
                                  (document p),
                     next_ident := unused_after new (next_ident p)\<rparr>
          in if watched p parent then mutationObserver [\<lparr>addedNodes = new\<rparr>] p1 else p1)"

subsection \<open>Socket events (lines 28--53)\<close>

text \<open>Line 32: the new text of the counter.\<close>

definition bumped :: "jsstring \<Rightarrow> jsstring" where
  "bumped t =
     (case parseInt (if t = [] then str ''0'' else t) of
        None \<Rightarrow> str ''NaN''
      | Some n \<Rightarrow> toString (n + 1))"

text \<open>
  Line 37 hands \<^verbatim>\<open><strong>username</strong>: content\<close> to \<^verbatim>\<open>innerHTML\<close>, that is, to the
  browser's fragment parser.  A parser is given the first identity it may use for a node,
  and the markup.  Text is \<open>plain\<close> when the parser takes it as it stands: no \<^verbatim>\<open><\<close> (a tag), no
  \<^verbatim>\<open>&\<close> (a character reference), no carriage return (turned into a line feed) and no
  \<^verbatim>\<open>U+0000\<close> (dropped).  For a plain user name and a plain content the outcome is known: a
  \<^verbatim>\<open>strong\<close> element that holds the user name, then one text node.  For anything else it is
  what the parser \<open>html\<close> of the browser makes of the markup.
\<close>

type_synonym parser = "nat \<Rightarrow> jsstring \<Rightarrow> node list"

definition plain :: "jsstring \<Rightarrow> bool" where
  "plain s \<longleftrightarrow> list_all (\<lambda>c. c \<notin> set [0, 13, 38, 60]) s"

definition entry_nodes :: "parser \<Rightarrow> nat \<Rightarrow> comment \<Rightarrow> node list" where
  "entry_nodes html k d =
     (if plain (username d) \<and> plain (content d) then
        [with_children (if username d = [] then [] else [text_node (k + 1) (username d)])
           (createElement k ''strong''),
         text_node (k + 2) (str '': '' @ content d)]
      else html k (str ''<strong>'' @ username d @ str ''</strong>: '' @ content d))"

text \<open>Lines 31--39, on the post that line 29 found.  The list is looked up after the
  counter was written.\<close>

definition comment_on_post :: "comment \<Rightarrow> parser \<Rightarrow> page \<Rightarrow> node \<Rightarrow> node" where
  "comment_on_post d html p post =
     (let post1 =
            (case find_first (has_class ''comment-count'') (childNodes post) of
               Some countEl \<Rightarrow>
                 with_children
                   (update_first (has_class ''comment-count'')
                      (\<lambda>c. set_textContent (next_ident p) (bumped (textContent c)) c)
                      (childNodes post)) post
             | None \<Rightarrow> post)
      in case find_first (has_class ''comments-list'') (childNodes post1) of
           Some list \<Rightarrow>
             let li = with_children (entry_nodes html (next_ident p + 2) d)
                        (createElement (next_ident p + 1) ''li'')
             in with_children
                  (update_first (has_class ''comments-list'') (appendChild li)
                     (childNodes post1)) post1
         | None \<Rightarrow> post1)"

definition new_comment :: "comment \<Rightarrow> parser \<Rightarrow> page \<Rightarrow> page" where
  "new_comment d html p =
     (case find_first (is_post_with_id (toString (post_id d))) (document p) of
        Some post \<Rightarrow>
          let doc = update_first (is_post_with_id (toString (post_id d)))
                      (comment_on_post d html p) (document p)
          in p\<lparr>document := doc, next_ident := unused_after doc (next_ident p + 2)\<rparr>
      | None \<Rightarrow> p)"

text \<open>Lines 47--49 and 67--69: the \<^verbatim>\<open>div\<close> that shows a message.\<close>

definition message_div :: "nat \<Rightarrow> string list \<Rightarrow> jsstring \<Rightarrow> node" where
  "message_div i cls text =
     set_textContent (Suc i) text (with_classes cls (createElement i ''div''))"

definition new_message :: "message \<Rightarrow> page \<Rightarrow> page" where
  "new_message d p =
     (case find_first (has_id ''messages'') (document p) of
        None \<Rightarrow> p
      | Some chatContainer \<Rightarrow>
          if Some (recipient d) = currentUsername p \<or> Some (sender d) = currentUsername p then
            let msg = message_div (next_ident p)
                        (if Some (sender d) = currentUsername p then [''message'', ''from-me'']
                         else [''message'', ''from-other''])
                        (body d)
            in p\<lparr>document := update_first (has_id ''messages'') (appendChild msg) (document p),
                 scrollTop := (scrollTop p)(ident chatContainer := Bottom),
                 next_ident := next_ident p + 2\<rparr>
          else p)"

subsection \<open>Sending a chat message (lines 56--83)\<close>

text \<open>The click listener of the send button.  \<open>input\<close> and \<open>messagesDiv\<close> are used as they
  were captured, without a check.  The recipient of line 65 is a string literal of the
  script, \<^verbatim>\<open>"{{ chat_user }}"\<close>: as the script stands, these characters are what
  the listener sends, whatever the page and whatever was typed.\<close>

definition click_send :: "page \<Rightarrow> error option \<times> page" where
  "click_send p =
     (case input p of
        None \<Rightarrow> (Some TypeError, p)
      | Some i \<Rightarrow>
          let text = trim (input_value p i) in
          if text = [] then (None, p)
          else
            let p1 = p\<lparr>outbox := outbox p @ [Send_message (str ''{{ chat_user }}'') text]\<rparr>;
                msg = message_div (next_ident p) [''message'', ''from-me''] text
            in case messagesDiv p of
                 None \<Rightarrow> (Some TypeError, p1)
               | Some m \<Rightarrow>
                   (None, p1\<lparr>document := update_first (has_ident m) (appendChild msg)
                                            (document p1),
                             scrollTop := (scrollTop p1)(m := Bottom),
                             input_value := (input_value p1)(i := []),
                             next_ident := next_ident p + 2\<rparr>))"

text \<open>The keypress listener of the input: \<^verbatim>\<open>btn.click()\<close> runs the click listener (the
  button is taken to be enabled; the script never disables it).\<close>

definition keypress :: "string \<Rightarrow> page \<Rightarrow> error option \<times> page" where
  "keypress key p =
     (if key = ''Enter'' then
        (case btn p of
           None \<Rightarrow> (Some TypeError, p)
         | Some b \<Rightarrow> click_send p)
      else (None, p))"

subsection \<open>Video playback (lines 101--145)\<close>

text \<open>What the script does to media elements and to \<open>current\<close>, one command per call or
  assignment, so that the state between two of them can be looked at.\<close>

datatype command = Pause nat | Play nat bool | Assign_current "nat option"

fun exec :: "command \<Rightarrow> page \<Rightarrow> page" where
  "exec (Pause v) p = p\<lparr>paused := (paused p)(v := True)\<rparr>"
| "exec (Play v ok) p = (if ok then p\<lparr>paused := (paused p)(v := False)\<rparr> else p)"
| "exec (Assign_current c) p = p\<lparr>current := c\<rparr>"

text \<open>The double that the literal \<^verbatim>\<open>0.6\<close> denotes.\<close>

definition threshold :: rat where
  "threshold = 5404319552844595 / 9007199254740992"

text \<open>Line 110.\<close>

fun pause_others :: "nat list \<Rightarrow> nat \<Rightarrow> page \<Rightarrow> command list" where
  "pause_others [] vid p = []"
| "pause_others (v # vs) vid p =
     (if v \<noteq> vid \<and> \<not> paused p v then Pause v # pause_others vs vid (exec (Pause v) p)
      else pause_others vs vid p)"

text \<open>Lines 106--118, for one entry; \<open>dominant\<close> is the test of line 107.\<close>

definition dominant :: "entry \<Rightarrow> bool" where
  "dominant e \<longleftrightarrow> isIntersecting e \<and> threshold \<le> intersectionRatio e"

definition on_entry :: "entry \<Rightarrow> page \<Rightarrow> command list" where
  "on_entry e p =
     (let vid = target e in
      if dominant e then
        let c1 = (case current p of
                    Some c \<Rightarrow> if c \<noteq> vid then [Pause c] else []
                  | None \<Rightarrow> []);
            c2 = pause_others (videos p) vid (fold exec c1 p)
        in c1 @ c2 @ [Assign_current (Some vid), Play vid (autoplay e)]
      else if \<not> paused p vid then [Pause vid] else [])"

fun intersectionObserver :: "entry list \<Rightarrow> page \<Rightarrow> command list" where
  "intersectionObserver [] p = []"
| "intersectionObserver (e # es) p =
     (let cs = on_entry e p in cs @ intersectionObserver es (fold exec cs p))"

text \<open>Lines 130--131, 135--136 and 142--143.\<close>

definition pause_all :: "page \<Rightarrow> command list" where
  "pause_all p = map Pause (videos p) @ [Assign_current None]"

subsection \<open>Loading (the body of the callback, top to bottom)\<close>

definition elem_ident :: "node option \<Rightarrow> nat option" where
  "elem_ident r = map_option ident r"

definition DOMContentLoaded :: "page \<Rightarrow> page" where
  "DOMContentLoaded p =
     (let doc = document p;
          vids = map ident (select_inside (has_class ''post'') (has_name ''video'') False doc)
      in p\<lparr>currentUsername :=
             (case find_first (has_name ''body'') doc of
                None \<Rightarrow> None
              | Some b \<Rightarrow> map_of (attributes b) ''data-username''),
           postsContainer :=
             (case find_first (has_id ''posts'') doc of
                Some c \<Rightarrow> Some (ident c)
              | None \<Rightarrow> elem_ident (find_first (has_id ''profile-posts'') doc)),
           input := elem_ident (find_first (has_id ''messageInput'') doc),
           btn := elem_ident (find_first (has_id ''sendBtn'') doc),
           messagesDiv := elem_ident (find_first (has_id ''messages'') doc),
           submit_listeners := map ident (find_all (has_class ''comment-form'') doc),
           videos := vids,
           current := None,
           paused := (\<lambda>v. if v \<in> set vids then True else paused p v),
           observed := vids,
           img_listeners :=
             map ident (select_inside (has_class ''post'') (has_name ''img'') False doc)\<rparr>)"

subsection \<open>Events\<close>

text \<open>
  Everything that can happen to a loaded page: a change of the tree made from outside,
  text typed into an input, the two socket events, a click on the send button, a key pressed in the chat input, a
  form submitted, a report of the browser on visibilities, \<^verbatim>\<open>visibilitychange\<close> (with the
  value of \<^verbatim>\<open>document.hidden\<close>), \<^verbatim>\<open>blur\<close> on the window, a click on an image.  An event on an
  element without a listener does nothing.  The intersection observer hands over the
  entries whose targets it observes.  A \<^verbatim>\<open>new_comment\<close> event comes with the payload and,
  since its handler assigns \<^verbatim>\<open>innerHTML\<close>, with the fragment parser of the browser it
  arrives in.
\<close>

datatype event =
    Inserted nat nat "node list"
  | Typed nat jsstring
  | New_comment comment parser
  | New_message message
  | Click_send
  | Keypress string
  | Submit nat
  | Intersection "entry list"
  | Visibilitychange bool
  | Blur
  | Click_img nat

fun media_commands :: "event \<Rightarrow> page \<Rightarrow> command list" where
  "media_commands (Intersection es) p =
     intersectionObserver (filter (\<lambda>e. target e \<in> set (observed p)) es) p"
| "media_commands (Visibilitychange hidden) p = (if hidden then pause_all p else [])"
| "media_commands Blur p = pause_all p"
| "media_commands (Click_img i) p = (if i \<in> set (img_listeners p) then pause_all p else [])"
| "media_commands ev p = []"

fun step :: "event \<Rightarrow> page \<Rightarrow> error option \<times> page" where
  "step (Inserted parent k new) p = (None, inserted parent k new p)"
| "step (Typed i s) p = (None, p\<lparr>input_value := (input_value p)(i := s)\<rparr>)"
| "step (New_comment d html) p = (None, new_comment d html p)"
| "step (New_message d) p = (None, new_message d p)"
| "step Click_send p = (case btn p of None \<Rightarrow> (None, p) | Some b \<Rightarrow> click_send p)"
| "step (Keypress key) p = (case input p of None \<Rightarrow> (None, p) | Some i \<Rightarrow> keypress key p)"
| "step (Submit form) p = dispatch (count_list (submit_listeners p) form) (on_submit form) p"
| "step ev p = (None, fold exec (media_commands ev p) p)"

definition run :: "event list \<Rightarrow> page \<Rightarrow> page" where
  "run evs p = fold (\<lambda>ev q. snd (step ev q)) evs p"

text \<open>The states a page goes through: after each media command of each event, and after
  each event.\<close>

fun states :: "command list \<Rightarrow> page \<Rightarrow> page list" where
  "states [] p = []"
| "states (c # cs) p = exec c p # states cs (exec c p)"

fun instants :: "event list \<Rightarrow> page \<Rightarrow> page list" where
  "instants [] p = []"
| "instants (ev # evs) p =
     states (media_commands ev p) p @ [snd (step ev p)] @ instants evs (snd (step ev p))"

text \<open>All media commands of a run, in the order they are issued.\<close>

fun issued :: "event list \<Rightarrow> page \<Rightarrow> command list" where
  "issued [] p = []"
| "issued (ev # evs) p = media_commands ev p @ issued evs (snd (step ev p))"

definition at_most_one_playing :: "page \<Rightarrow> bool" where
  "at_most_one_playing p \<longleftrightarrow> (\<forall>v w. \<not> paused p v \<and> \<not> paused p w \<longrightarrow> v = w)"

subsection \<open>Two small pages\<close>

text \<open>A page before the script has run: nothing captured, nothing registered, every input
  empty, no media playing.\<close>

definition blank_page :: "node list \<Rightarrow> page" where
  "blank_page doc =
     \<lparr>document = doc, next_ident = unused_after doc 0,
      input_value = (\<lambda>i. []), paused = (\<lambda>v. True),
      scrollTop = (\<lambda>i. Offset 0), outbox = [], currentUsername = None,
      postsContainer = None, input = None, btn = None, messagesDiv = None, videos = [],
      current = None, submit_listeners = [], img_listeners = [], observed = []\<rparr>"

definition chat_doc :: "node list" where
  "chat_doc =
     [Node 0 ''body'' [] [(''data-username'', str ''ana'')] []
        [Node 1 ''div'' [] [(''id'', str ''messages'')] [] [],
         Node 2 ''input'' [] [(''id'', str ''messageInput'')] [] [],
         Node 3 ''button'' [] [(''id'', str ''sendBtn'')] [] []]]"

definition feed_doc :: "node list" where
  "feed_doc =
     [Node 0 ''body'' [] [(''data-username'', str ''ana'')] []
        [Node 1 ''div'' [] [(''id'', str ''posts'')] []
           [Node 2 ''div'' [''post''] [(''data-post-id'', str ''7'')] []
              [Node 3 ''video'' [] [] [] [],
               Node 4 ''img'' [] [] [] [],
               Node 5 ''span'' [''comment-count''] [] [] [Node 6 ''#text'' [] [] (str ''4'') []],
               Node 7 ''ul'' [''comments-list''] [] [] [],
               Node 8 ''form'' [''comment-form''] [(''data-post-id'', str ''7'')] []
                 [Node 9 ''input'' [] [(''name'', str ''comment'')] [] []]],
            Node 10 ''div'' [''post''] [(''data-post-id'', str ''8'')] []
              [Node 11 ''video'' [] [] [] []]]]]"

definition chat_page :: page where
  "chat_page = DOMContentLoaded (blank_page chat_doc)"

definition feed_page :: page where
  "feed_page = DOMContentLoaded (blank_page feed_doc)"


definition chat_blank :: page where
  "chat_blank = run [Typed 2 (str ''   '')] chat_page"

definition feed_blank :: page where
  "feed_blank = run [Typed 9 [9, 160, 32]] feed_page"

text \<open>Pages on which an element of the chat is missing: only the input; only the button;
  input and button without the messages container.\<close>

definition input_only_page :: page where
  "input_only_page =
     DOMContentLoaded (blank_page
       [Node 0 ''body'' [] [] []
          [Node 2 ''input'' [] [(''id'', str ''messageInput'')] [] []]])"

definition button_only_page :: page where
  "button_only_page =
     DOMContentLoaded (blank_page
       [Node 0 ''body'' [] [] []
          [Node 3 ''button'' [] [(''id'', str ''sendBtn'')] [] []]])"

definition no_container_page :: page where
  "no_container_page =
     run [Typed 2 (str ''hello'')]
       (DOMContentLoaded (blank_page
          [Node 0 ''body'' [] [] []
             [Node 2 ''input'' [] [(''id'', str ''messageInput'')] [] [],
              Node 3 ''button'' [] [(''id'', str ''sendBtn'')] [] []]]))"

text \<open>A post as it may arrive later, with an image, a video and a comment form; and the
  same post inside a wrapper that is not a post.\<close>

definition late_post :: node where
  "late_post =
     Node 21 ''div'' [''post''] [(''data-post-id'', str ''9'')] []
       [Node 22 ''img'' [] [] [] [],
        Node 23 ''video'' [] [] [] [],
        Node 24 ''form'' [''comment-form''] [(''data-post-id'', str ''9'')] []
          [Node 25 ''input'' [] [(''name'', str ''comment'')] [] []]]"

definition wrapped_post :: node where
  "wrapped_post = Node 20 ''div'' [''wrapper''] [] [] [late_post]"

subsection \<open>Notions used to state the properties\<close>

text \<open>The form that lines 8--11 bind when \<open>node\<close> is among the added nodes.\<close>

definition bound_form :: "node \<Rightarrow> nat list" where
  "bound_form node =
     (if has_class ''post'' node then
        (case find_first (has_class ''comment-form'') (childNodes node) of
           Some commentForm \<Rightarrow> [ident commentForm]
         | None \<Rightarrow> [])
      else [])"

text \<open>Two pages with the same playback state and the same playback registrations.\<close>

definition same_media :: "page \<Rightarrow> page \<Rightarrow> bool" where
  "same_media p q \<longleftrightarrow>
     paused q = paused p \<and> current q = current p \<and> videos q = videos p
     \<and> observed q = observed p \<and> img_listeners q = img_listeners p"

text \<open>The playback state the script keeps up.  In any case the observer's targets and
  \<open>current\<close> are in \<open>videos\<close>; in the strict sense, moreover, no two videos play and
  whatever plays is in \<open>videos\<close>.\<close>

definition controlled :: "bool \<Rightarrow> page \<Rightarrow> bool" where
  "controlled strict p \<longleftrightarrow>
     set (observed p) \<subseteq> set (videos p)
     \<and> (\<forall>c. current p = Some c \<longrightarrow> c \<in> set (videos p))
     \<and> (strict \<longrightarrow> at_most_one_playing p \<and> (\<forall>v. \<not> paused p v \<longrightarrow> v \<in> set (videos p)))"

text \<open>A command is in order, in a state, when it addresses a video of the list and, in the
  strict sense, when a \<^verbatim>\<open>play()\<close> finds every other video paused.\<close>

fun in_order :: "bool \<Rightarrow> command \<Rightarrow> page \<Rightarrow> bool" where
  "in_order strict (Pause v) p \<longleftrightarrow> v \<in> set (videos p)"
| "in_order strict (Play v ok) p \<longleftrightarrow>
     v \<in> set (videos p) \<and> (strict \<longrightarrow> (\<forall>w. w \<noteq> v \<longrightarrow> paused p w))"
| "in_order strict (Assign_current c) p \<longleftrightarrow>
     (case c of None \<Rightarrow> True | Some v \<Rightarrow> v \<in> set (videos p))"

fun all_in_order :: "bool \<Rightarrow> command list \<Rightarrow> page \<Rightarrow> bool" where
  "all_in_order strict [] p \<longleftrightarrow> True"
| "all_in_order strict (c # cs) p \<longleftrightarrow>
     in_order strict c p \<and> all_in_order strict cs (exec c p)"

text \<open>Two entries of the observer for the two videos of the feed page, both above the
  threshold, and one for a video that is not in the list.\<close>

definition entry_three :: entry where
  "entry_three = \<lparr>target = 3, isIntersecting = True, intersectionRatio = 7 / 10, autoplay = True\<rparr>"

definition entry_eleven :: entry where
  "entry_eleven = \<lparr>target = 11, isIntersecting = True, intersectionRatio = 1, autoplay = True\<rparr>"

definition entry_late :: entry where
  "entry_late = \<lparr>target = 23, isIntersecting = True, intersectionRatio = 1, autoplay = True\<rparr>"

text \<open>A run on the feed page: a post arrives under the container, then the observer
  reports two videos above the threshold, the late one first.  And the feed page with its
  first video playing.\<close>

definition late_events :: "event list" where
  "late_events = [Inserted 1 2 [late_post], Intersection [entry_late, entry_three]]"

definition one_playing :: page where
  "one_playing = run [Intersection [entry_three]] feed_page"

text \<open>All nodes of a forest, in document order.\<close>

fun subtrees :: "node list \<Rightarrow> node list" where
  "subtrees [] = []"
| "subtrees (Node i t cs as d ks # ns) = Node i t cs as d ks # subtrees ks @ subtrees ns"

text \<open>At most one video of the list captured at load is playing.\<close>

definition at_most_one_listed :: "page \<Rightarrow> bool" where
  "at_most_one_listed p \<longleftrightarrow>
     (\<forall>v \<in> set (videos p). \<forall>w \<in> set (videos p). \<not> paused p v \<and> \<not> paused p w \<longrightarrow> v = w)"

text \<open>A \<^verbatim>\<open>play()\<close> is exclusive, in a state, when it finds every other video of the list
  paused; a sequence of commands is, when each \<^verbatim>\<open>play()\<close> in it is, in the state it is
  issued in.\<close>

fun exclusive :: "command \<Rightarrow> page \<Rightarrow> bool" where
  "exclusive (Play v ok) p \<longleftrightarrow> (\<forall>w \<in> set (videos p). w \<noteq> v \<longrightarrow> paused p w)"
| "exclusive (Pause v) p \<longleftrightarrow> True"
| "exclusive (Assign_current c) p \<longleftrightarrow> True"

fun all_exclusive :: "command list \<Rightarrow> page \<Rightarrow> bool" where
  "all_exclusive [] p \<longleftrightarrow> True"
| "all_exclusive (c # cs) p \<longleftrightarrow> exclusive c p \<and> all_exclusive cs (exec c p)"

text \<open>Playback that the script did not start (the user pressed play on a video's
  controls): the feed page with its first video playing and \<open>current\<close> still \<^verbatim>\<open>null\<close>; and
  the feed page after a post has arrived, with the video of that post playing.\<close>

definition started_by_hand :: page where
  "started_by_hand = feed_page\<lparr>paused := (paused feed_page)(3 := False)\<rparr>"

definition late_playing :: page where
  "late_playing =
     (run [Inserted 1 2 [late_post]] feed_page)
       \<lparr>paused := (paused (run [Inserted 1 2 [late_post]] feed_page))(23 := False)\<rparr>"

section \<open>Properties\<close>

subsection \<open>Looking up and writing through a selector\<close>

lemma shallowD: "shallow P \<Longrightarrow> P (Node i t cs as d ks) = P (Node i t cs as d ks')"
  unfolding shallow_def
  by (metis with_children.simps)

lemma shallow_has_ident [simp]: "shallow (has_ident i)"
  unfolding shallow_def has_ident_def by (rule allI, rule allI, case_tac n) simp

lemma shallow_has_id [simp]: "shallow (has_id x)"
  unfolding shallow_def has_id_def is_element_def by (rule allI, rule allI, case_tac n) simp

lemma shallow_has_class [simp]: "shallow (has_class x)"
  unfolding shallow_def has_class_def is_element_def by (rule allI, rule allI, case_tac n) simp

lemma shallow_is_post_with_id [simp]: "shallow (is_post_with_id x)"
  unfolding shallow_def is_post_with_id_def has_class_def is_element_def
  by (rule allI, rule allI, case_tac n) simp

text \<open>Reading back through the selector that was written through.\<close>

lemma find_first_update_first:
  "shallow P \<Longrightarrow> (\<And>n. P n \<Longrightarrow> P (f n)) \<Longrightarrow>
   find_first P (update_first P f ns) = map_option f (find_first P ns)"
proof (induction P ns rule: find_first.induct)
  case (1 P)
  show ?case by simp
next
  case (2 P i t cs as d ks ns)
  obtain j u ds bs e ls where fn: "f (Node i t cs as d ks) = Node j u ds bs e ls"
    by (cases "f (Node i t cs as d ks)")
  show ?case
  proof (cases "P (Node i t cs as d ks)")
    case True
    with "2.prems"(2)[OF True] fn show ?thesis by simp
  next
    case False
    then have "\<not> P (Node i t cs as d (update_first P f ks))"
      using shallowD[OF "2.prems"(1)] by blast
    with False 2 show ?thesis by (auto split: option.splits)
  qed
qed

lemma has_ident_appendChild [simp]: "has_ident m (appendChild x n) = has_ident m n"
  by (cases n) (simp add: has_ident_def appendChild_def)

lemma has_id_appendChild [simp]: "has_id m (appendChild x n) = has_id m n"
  by (cases n) (simp add: has_id_def is_element_def appendChild_def)

lemma message_div_class [simp]: "classList (message_div i cls s) = cls"
  by (simp add: message_div_def set_textContent_def createElement_def)

lemma message_div_text [simp]: "textContent (message_div i cls s) = s"
  by (simp add: message_div_def set_textContent_def createElement_def text_node_def)


text \<open>What it takes to run the handlers on the two small pages.\<close>

lemmas page_defs =
  chat_page_def feed_page_def chat_doc_def feed_doc_def blank_page_def DOMContentLoaded_def
  run_def elem_ident_def find_all_def unused_after_def Let_def

lemmas selector_defs =
  has_id_def has_ident_def has_class_def has_name_def is_post_with_id_def
  is_comment_input_def is_element_def str_def

subsection \<open>Sending\<close>

lemma on_submit_blank:
  assumes "find_first (has_ident form) (document p) = Some f"
    and "find_first is_comment_input (childNodes f) = Some inp"
    and "trim (input_value p (ident inp)) = []"
  shows "on_submit form p = (None, p)"
  using assms by (simp add: on_submit_def)

lemma dispatch_fixed: "h p = (None, p) \<Longrightarrow> dispatch k h p = (None, p)"
  by (induction k) simp_all

text \<open>
  Claim C4.  A click on the send button (or Enter in the chat input, which clicks it) with
  an input whose text trims to the empty string, and a submit of a comment form whose
  comment input trims to the empty string, leave the list of emitted events as it was:
  no \<^verbatim>\<open>send_message\<close> and no \<^verbatim>\<open>send_comment\<close> goes out.
\<close>

theorem empty_text_emits_nothing:
  "(input p = Some i \<and> trim (input_value p i) = [] \<longrightarrow>
      outbox (snd (step Click_send p)) = outbox p
      \<and> outbox (snd (step (Keypress key) p)) = outbox p)
   \<and> (find_first (has_ident form) (document p) = Some f
      \<and> find_first is_comment_input (childNodes f) = Some inp
      \<and> trim (input_value p (ident inp)) = [] \<longrightarrow>
      outbox (snd (step (Submit form) p)) = outbox p)"
  by (auto simp: click_send_def keypress_def on_submit_blank dispatch_fixed
           split: option.splits)

theorem empty_text_emits_nothing_witness:
  "input chat_blank = Some 2 \<and> trim (input_value chat_blank 2) = []
   \<and> outbox (snd (step Click_send chat_blank)) = []
   \<and> outbox (snd (step (Keypress ''Enter'') chat_blank)) = []
   \<and> find_first (has_ident 8) (document feed_blank)
       = Some (Node 8 ''form'' [''comment-form''] [(''data-post-id'', str ''7'')] []
                 [Node 9 ''input'' [] [(''name'', str ''comment'')] [] []])
   \<and> trim (input_value feed_blank 9) = []
   \<and> submit_listeners feed_blank = [8]
   \<and> outbox (snd (step (Submit 8) feed_blank)) = []"
proof -
  let ?inp = "Node 9 ''input'' [] [(''name'', str ''comment'')] [] []"
  let ?form = "Node 8 ''form'' [''comment-form''] [(''data-post-id'', str ''7'')] [] [?inp]"
  have c1: "input chat_blank = Some 2"
    by (simp add: chat_blank_def page_defs selector_defs)
  have c2: "trim (input_value chat_blank 2) = []"
    by (simp add: chat_blank_def page_defs selector_defs trim_def isWhiteSpace_def)
  have c3: "outbox chat_blank = []"
    by (simp add: chat_blank_def page_defs selector_defs)
  have f1: "find_first (has_ident 8) (document feed_blank) = Some ?form"
    by (simp add: feed_blank_def page_defs selector_defs)
  have f2: "find_first is_comment_input (childNodes ?form) = Some ?inp"
    by (simp add: selector_defs)
  have f3: "trim (input_value feed_blank (ident ?inp)) = []"
    by (simp add: feed_blank_def page_defs selector_defs trim_def isWhiteSpace_def)
  have f4: "outbox feed_blank = []" "submit_listeners feed_blank = [8]"
    by (simp_all add: feed_blank_def page_defs selector_defs)
  have a: "outbox (snd (step Click_send chat_blank)) = outbox chat_blank
           \<and> outbox (snd (step (Keypress ''Enter'') chat_blank)) = outbox chat_blank"
    using empty_text_emits_nothing [of chat_blank 2 "''Enter''" 8 ?form ?inp] c1 c2
    by blast
  have b: "outbox (snd (step (Submit 8) feed_blank)) = outbox feed_blank"
    using empty_text_emits_nothing [of feed_blank 2 "''Enter''" 8 ?form ?inp] f1 f2 f3
    by blast
  have f3': "trim (input_value feed_blank 9) = []"
    using f3 by simp
  from a b c1 c2 c3 f1 f3' f4 show ?thesis by simp
qed



subsection \<open>Two selectors on one tree\<close>






lemma appendChild_neq: "appendChild x n \<noteq> n"
  by (cases n) (simp add: appendChild_def)

lemma update_first_absent: "find_first P ns = None \<Longrightarrow> update_first P f ns = ns"
  by (induction P f ns rule: update_first.induct) (auto split: option.splits if_splits)


lemma has_class_set_textContent [simp]:
  "has_class c (set_textContent i s n) = has_class c n"
  by (cases n) (simp add: has_class_def is_element_def set_textContent_def)

lemma has_class_appendChild [simp]: "has_class c (appendChild x n) = has_class c n"
  by (cases n) (simp add: has_class_def is_element_def appendChild_def)



lemma childNodes_with_children [simp]: "childNodes (with_children ks n) = ks"
  by (cases n) simp


subsection \<open>Socket events\<close>

text \<open>
  Claim C2.  On a page that has the chat container, a \<^verbatim>\<open>new_message\<close> event changes the
  document if and only if the local user name equals the sender or the recipient of the
  payload.  When it does, the container gets one more child, a \<^verbatim>\<open>div\<close> with the content as
  its text, of class \<^verbatim>\<open>from-me\<close> exactly when the sender is the local user and of class
  \<^verbatim>\<open>from-other\<close> otherwise; when it does not, the page stays as it was.
\<close>

theorem new_message_rendering:
  assumes "find_first (has_id ''messages'') (document p) = Some box"
  shows "let q = snd (step (New_message d) p);
             mine = (Some (sender d) = currentUsername p);
             shown = (mine \<or> Some (recipient d) = currentUsername p);
             msg = message_div (next_ident p)
                     (if mine then [''message'', ''from-me''] else [''message'', ''from-other''])
                     (body d)
         in fst (step (New_message d) p) = None
            \<and> (document q \<noteq> document p \<longleftrightarrow> shown)
            \<and> (if shown
               then find_first (has_id ''messages'') (document q) = Some (appendChild msg box)
                    \<and> textContent msg = body d
                    \<and> (has_class ''from-me'' msg \<longleftrightarrow> mine)
                    \<and> (has_class ''from-other'' msg \<longleftrightarrow> \<not> mine)
               else q = p)"
proof -
  let ?q = "snd (step (New_message d) p)"
  let ?mine = "Some (sender d) = currentUsername p"
  let ?shown = "?mine \<or> Some (recipient d) = currentUsername p"
  let ?msg = "message_div (next_ident p)
                (if ?mine then [''message'', ''from-me''] else [''message'', ''from-other''])
                (body d)"
  have off: "\<not> ?shown \<Longrightarrow> ?q = p"
    using assms by (auto simp: new_message_def)
  have on: "find_first (has_id ''messages'') (document ?q) = Some (appendChild ?msg box)"
    if "?shown"
    using assms that by (auto simp: new_message_def Let_def find_first_update_first)
  have changed: "document ?q \<noteq> document p" if "?shown"
  proof
    assume "document ?q = document p"
    with on[OF that] assms have "appendChild ?msg box = box" by simp
    then show False by (simp add: appendChild_neq)
  qed
  have cls: "has_class ''from-me'' ?msg \<longleftrightarrow> ?mine" "has_class ''from-other'' ?msg \<longleftrightarrow> \<not> ?mine"
    by (simp_all add: has_class_def is_element_def message_div_def set_textContent_def
          createElement_def)
  have ok: "fst (step (New_message d) p) = None" by simp
  show ?thesis
    unfolding Let_def
    using off on changed cls ok by (cases "?shown") (simp_all del: step.simps)
qed

theorem new_message_rendering_witness:
  "find_first (has_id ''messages'') (document chat_page)
     = Some (Node 1 ''div'' [] [(''id'', str ''messages'')] [] [])
   \<and> currentUsername chat_page = Some (str ''ana'')
   \<and> find_first (has_id ''messages'')
         (document (snd (step (New_message \<lparr>sender = str ''ana'', recipient = str ''bob'',
                                              body = str ''hi''\<rparr>) chat_page)))
       = Some (Node 1 ''div'' [] [(''id'', str ''messages'')] []
                 [Node 4 ''div'' [''message'', ''from-me''] [] []
                    [Node 5 ''#text'' [] [] (str ''hi'') []]])
   \<and> find_first (has_id ''messages'')
         (document (snd (step (New_message \<lparr>sender = str ''bob'', recipient = str ''ana'',
                                              body = str ''yo''\<rparr>) chat_page)))
       = Some (Node 1 ''div'' [] [(''id'', str ''messages'')] []
                 [Node 4 ''div'' [''message'', ''from-other''] [] []
                    [Node 5 ''#text'' [] [] (str ''yo'') []]])
   \<and> snd (step (New_message \<lparr>sender = str ''bob'', recipient = str ''cy'',
                               body = str ''psst''\<rparr>) chat_page) = chat_page"
proof -
  let ?box = "Node 1 ''div'' [] [(''id'', str ''messages'')] [] []"
  have box: "find_first (has_id ''messages'') (document chat_page) = Some ?box"
    by (simp add: page_defs selector_defs)
  have me: "currentUsername chat_page = Some (str ''ana'')"
    by (simp add: page_defs selector_defs)
  have nxt: "next_ident chat_page = 4"
    by (simp add: page_defs selector_defs)
  have a: "find_first (has_id ''messages'')
         (document (snd (step (New_message \<lparr>sender = str ''ana'', recipient = str ''bob'',
                                              body = str ''hi''\<rparr>) chat_page)))
       = Some (Node 1 ''div'' [] [(''id'', str ''messages'')] []
                 [Node 4 ''div'' [''message'', ''from-me''] [] []
                    [Node 5 ''#text'' [] [] (str ''hi'') []]])"
    using new_message_rendering [OF box,
        of "\<lparr>sender = str ''ana'', recipient = str ''bob'', body = str ''hi''\<rparr>"]
    by (simp add: Let_def me nxt message_div_def set_textContent_def createElement_def
          appendChild_def text_node_def str_def del: step.simps)
  have b: "find_first (has_id ''messages'')
         (document (snd (step (New_message \<lparr>sender = str ''bob'', recipient = str ''ana'',
                                              body = str ''yo''\<rparr>) chat_page)))
       = Some (Node 1 ''div'' [] [(''id'', str ''messages'')] []
                 [Node 4 ''div'' [''message'', ''from-other''] [] []
                    [Node 5 ''#text'' [] [] (str ''yo'') []]])"
    using new_message_rendering [OF box,
        of "\<lparr>sender = str ''bob'', recipient = str ''ana'', body = str ''yo''\<rparr>"]
    by (simp add: Let_def me nxt message_div_def set_textContent_def createElement_def
          appendChild_def text_node_def str_def del: step.simps)
  have c: "snd (step (New_message \<lparr>sender = str ''bob'', recipient = str ''cy'',
                               body = str ''psst''\<rparr>) chat_page) = chat_page"
    using new_message_rendering [OF box,
        of "\<lparr>sender = str ''bob'', recipient = str ''cy'', body = str ''psst''\<rparr>"]
    by (simp add: Let_def me str_def del: step.simps)
  from box me a b c show ?thesis by (simp only: simp_thms)
qed


lemma subtrees_append [simp]: "subtrees (xs @ ys) = subtrees xs @ subtrees ys"
  by (induction xs rule: subtrees.induct) simp_all







subsection \<open>Missing elements\<close>

text \<open>
  Claim C8 says that no user action throws when a companion element is missing.  The
  script guards the registration of each listener (\<^verbatim>\<open>if (btn)\<close>, \<^verbatim>\<open>if (input)\<close>) but not what
  the listener uses.  On a page with the chat input and no send button, Enter in the input
  raises a \<^verbatim>\<open>TypeError\<close> (\<^verbatim>\<open>btn.click()\<close> on \<^verbatim>\<open>null\<close>); with the button and no input, a click
  raises one (\<^verbatim>\<open>input.value\<close>); with both and no messages container, a click emits the
  message and then raises one (\<^verbatim>\<open>messagesDiv.appendChild\<close>).
\<close>

theorem missing_companion_throws:
  "input input_only_page = Some 2 \<and> btn input_only_page = None
   \<and> fst (step (Keypress ''Enter'') input_only_page) = Some TypeError
   \<and> btn button_only_page = Some 3 \<and> input button_only_page = None
   \<and> fst (step Click_send button_only_page) = Some TypeError
   \<and> btn no_container_page = Some 3 \<and> input no_container_page = Some 2
   \<and> messagesDiv no_container_page = None
   \<and> step Click_send no_container_page
       = (Some TypeError,
          no_container_page\<lparr>outbox := [Send_message (str ''{{ chat_user }}'') (str ''hello'')]\<rparr>)"
  by (simp add: input_only_page_def button_only_page_def no_container_page_def
        page_defs selector_defs keypress_def click_send_def trim_def isWhiteSpace_def
        message_div_def set_textContent_def createElement_def)

subsection \<open>What the mutation observer does\<close>

lemma fold_observeVideo: "fold (\<lambda>v. observeVideo (ident v)) vs p = p"
  by (induction vs) (simp_all add: observeVideo_def)

lemma on_added_eq:
  "on_added node p = p\<lparr>submit_listeners := submit_listeners p @ bound_form node\<rparr>"
  by (simp add: on_added_def bound_form_def bindCommentForm_def Let_def fold_observeVideo
           split: option.splits)

lemma fold_on_added_eq:
  "fold on_added ns p = p\<lparr>submit_listeners := submit_listeners p @ concat (map bound_form ns)\<rparr>"
  by (induction ns arbitrary: p) (simp_all add: on_added_eq)

lemma mutationObserver_eq:
  "mutationObserver ms p =
     p\<lparr>submit_listeners :=
         submit_listeners p @ concat (map bound_form (concat (map addedNodes ms)))\<rparr>"
  unfolding mutationObserver_def
  by (induction ms arbitrary: p) (simp_all add: fold_on_added_eq)

subsection \<open>Posts that arrive later\<close>

text \<open>
  Claim C9, as stated, fails.  A wrapper that is not a post is put into the observed
  container; it holds a post with a comment form.  The observer is told of the wrapper
  only, the wrapper has no class \<^verbatim>\<open>post\<close>, and the form inside stays without a submit
  listener.
\<close>

theorem wrapped_post_not_bound:
  "postsContainer feed_page = Some 1
   \<and> watched feed_page 1
   \<and> find_first (has_class ''post'')
        (childNodes (the (find_first (has_ident 20)
           (document (snd (step (Inserted 1 0 [wrapped_post]) feed_page))))))
       = Some late_post
   \<and> find_first (has_class ''comment-form'') (childNodes late_post)
       = Some (Node 24 ''form'' [''comment-form''] [(''data-post-id'', str ''9'')] []
                 [Node 25 ''input'' [] [(''name'', str ''comment'')] [] []])
   \<and> 24 \<notin> set (submit_listeners (snd (step (Inserted 1 0 [wrapped_post]) feed_page)))"
  by (simp add: inserted_def watched_def mutationObserver_eq bound_form_def
        wrapped_post_def late_post_def insert_children_def
        page_defs selector_defs)

text \<open>
  Claim C9, amended.  When nodes are put under the observed container or under any node
  below it, the forms bound are exactly these: for each of the nodes put there that is
  itself a post, its first comment form if it has one.  So a post among these nodes has
  its form bound, and nodes none of which is a post bind nothing, whatever they contain.
\<close>

theorem added_post_form_bound:
  assumes "watched p parent"
    and "find_first (has_ident parent) (document p) = Some par"
  shows "submit_listeners (snd (step (Inserted parent k new) p))
           = submit_listeners p @ concat (map bound_form new)
         \<and> (\<forall>node \<in> set new. \<forall>form.
               has_class ''post'' node
               \<and> find_first (has_class ''comment-form'') (childNodes node) = Some form
               \<longrightarrow> ident form \<in> set (submit_listeners (snd (step (Inserted parent k new) p))))
         \<and> ((\<forall>node \<in> set new. \<not> has_class ''post'' node)
               \<longrightarrow> submit_listeners (snd (step (Inserted parent k new) p)) = submit_listeners p)"
proof -
  have eq: "submit_listeners (snd (step (Inserted parent k new) p))
           = submit_listeners p @ concat (map bound_form new)"
    using assms by (simp add: inserted_def mutationObserver_eq)
  have "ident form \<in> set (concat (map bound_form new))"
    if "node \<in> set new" "has_class ''post'' node"
      "find_first (has_class ''comment-form'') (childNodes node) = Some form" for node form
  proof -
    have "ident form \<in> set (bound_form node)"
      using that by (simp add: bound_form_def)
    with that(1) show ?thesis by auto
  qed
  moreover have "concat (map bound_form new) = []"
    if "\<forall>node \<in> set new. \<not> has_class ''post'' node"
    using that by (simp add: bound_form_def)
  ultimately show ?thesis
    using eq by (auto simp del: step.simps)
qed

theorem added_post_form_bound_witness:
  "watched feed_page 1
   \<and> find_first (has_class ''comment-form'') (childNodes late_post)
       = Some (Node 24 ''form'' [''comment-form''] [(''data-post-id'', str ''9'')] []
                 [Node 25 ''input'' [] [(''name'', str ''comment'')] [] []])
   \<and> submit_listeners (snd (step (Inserted 2 0 [late_post]) feed_page)) = [8, 24]
   \<and> submit_listeners (snd (step (Inserted 1 0 [wrapped_post]) feed_page)) = [8]"
proof -
  let ?form = "Node 24 ''form'' [''comment-form''] [(''data-post-id'', str ''9'')] []
                 [Node 25 ''input'' [] [(''name'', str ''comment'')] [] []]"
  have w1: "watched feed_page 1" and w2: "watched feed_page 2"
    by (simp_all add: watched_def page_defs selector_defs)
  have p1: "find_first (has_ident 1) (document feed_page) \<noteq> None"
    and p2: "find_first (has_ident 2) (document feed_page) \<noteq> None"
    by (simp_all add: page_defs selector_defs)
  have form: "find_first (has_class ''comment-form'') (childNodes late_post) = Some ?form"
    by (simp add: late_post_def selector_defs)
  have old: "submit_listeners feed_page = [8]"
    by (simp add: page_defs selector_defs)
  from p1 obtain par1 where par1: "find_first (has_ident 1) (document feed_page) = Some par1"
    by blast
  from p2 obtain par2 where par2: "find_first (has_ident 2) (document feed_page) = Some par2"
    by blast
  have a: "submit_listeners (snd (step (Inserted 2 0 [late_post]) feed_page)) = [8, 24]"
    using added_post_form_bound [OF w2 par2, of 0 "[late_post]", THEN conjunct1] old form
    by (simp add: bound_form_def late_post_def selector_defs del: step.simps)
  have b: "submit_listeners (snd (step (Inserted 1 0 [wrapped_post]) feed_page)) = [8]"
    using added_post_form_bound [OF w1 par1, of 0 "[wrapped_post]", THEN conjunct1] old
    by (simp add: bound_form_def wrapped_post_def selector_defs del: step.simps)
  from w1 form a b show ?thesis by (intro conjI)
qed

subsection \<open>Playback commands\<close>

lemma exec_videos [simp]: "videos (exec c p) = videos p"
  by (cases c) simp_all

lemma exec_observed [simp]: "observed (exec c p) = observed p"
  by (cases c) simp_all

lemma paused_after_pause: "paused (exec (Pause v) p) x \<longleftrightarrow> x = v \<or> paused p x"
  by simp

lemma paused_after_play:
  "paused (exec (Play v ok) p) x \<longleftrightarrow> (if ok \<and> x = v then False else paused p x)"
  by simp

lemma paused_after_assign: "paused (exec (Assign_current c) p) = paused p"
  by simp

lemma current_after: 
  "current (exec (Pause v) p) = current p"
  "current (exec (Play v ok) p) = current p"
  "current (exec (Assign_current c) p) = c"
  by simp_all

lemma controlled_exec:
  assumes ctl: "controlled strict p" and ord: "in_order strict c p"
  shows "controlled strict (exec c p)"
proof -
  from ctl have A: "set (observed p) \<subseteq> set (videos p)"
    and B: "\<And>x. current p = Some x \<Longrightarrow> x \<in> set (videos p)"
    and C1: "\<And>x y. strict \<Longrightarrow> \<not> paused p x \<Longrightarrow> \<not> paused p y \<Longrightarrow> x = y"
    and C2: "\<And>x. strict \<Longrightarrow> \<not> paused p x \<Longrightarrow> x \<in> set (videos p)"
    unfolding controlled_def at_most_one_playing_def by blast+
  have A': "set (observed (exec c p)) \<subseteq> set (videos (exec c p))"
    using A by simp
  have B': "x \<in> set (videos (exec c p))" if "current (exec c p) = Some x" for x
  proof (cases c)
    case (Pause v)
    with that B show ?thesis by (simp add: current_after)
  next
    case (Play v ok)
    with that B show ?thesis by (simp only: current_after exec_videos)
  next
    case (Assign_current d)
    with that ord show ?thesis by (simp add: current_after)
  qed
  have C1': "x = y" if strict: "strict"
    and ux: "\<not> paused (exec c p) x" and uy: "\<not> paused (exec c p) y" for x y
  proof (cases c)
    case (Pause v)
    from ux Pause have "\<not> paused p x" by (simp split: if_splits)
    moreover from uy Pause have "\<not> paused p y" by (simp split: if_splits)
    ultimately show ?thesis using strict by (rule_tac C1)
  next
    case (Play v ok)
    from ord Play strict have others: "\<And>w. w \<noteq> v \<Longrightarrow> paused p w" by simp
    have "x = v"
    proof (rule ccontr)
      assume "x \<noteq> v"
      then have "paused p x" by (rule others)
      with \<open>x \<noteq> v\<close> Play have "paused (exec c p) x" by simp
      with ux show False by simp
    qed
    moreover have "y = v"
    proof (rule ccontr)
      assume "y \<noteq> v"
      then have "paused p y" by (rule others)
      with \<open>y \<noteq> v\<close> Play have "paused (exec c p) y" by simp
      with uy show False by simp
    qed
    ultimately show ?thesis by simp
  next
    case (Assign_current d)
    from ux Assign_current have "\<not> paused p x" by simp
    moreover from uy Assign_current have "\<not> paused p y" by simp
    ultimately show ?thesis using strict by (rule_tac C1)
  qed
  have C2': "x \<in> set (videos (exec c p))" if strict: "strict"
    and ux: "\<not> paused (exec c p) x" for x
  proof (cases c)
    case (Pause v)
    from ux Pause have "\<not> paused p x" by (simp split: if_splits)
    with strict have "x \<in> set (videos p)" by (rule C2)
    then show ?thesis by simp
  next
    case (Play v ok)
    show ?thesis
    proof (cases "x = v")
      case True
      with ord Play show ?thesis by simp
    next
      case False
      with ux Play have "\<not> paused p x" by (simp split: if_splits)
      with strict have "x \<in> set (videos p)" by (rule C2)
      then show ?thesis by simp
    qed
  next
    case (Assign_current d)
    from ux Assign_current have "\<not> paused p x" by simp
    with strict have "x \<in> set (videos p)" by (rule C2)
    then show ?thesis by simp
  qed
  show ?thesis
    unfolding controlled_def at_most_one_playing_def
    using A' B' C1' C2' by blast
qed

lemma exec_img_listeners [simp]: "img_listeners (exec c p) = img_listeners p"
  by (cases c) simp_all

lemma fold_exec_videos [simp]: "videos (fold exec cs p) = videos p"
  by (induction cs arbitrary: p) simp_all

lemma fold_exec_observed [simp]: "observed (fold exec cs p) = observed p"
  by (induction cs arbitrary: p) simp_all

lemma fold_exec_img_listeners [simp]: "img_listeners (fold exec cs p) = img_listeners p"
  by (induction cs arbitrary: p) simp_all

lemma controlled_videos:
  "controlled strict p \<Longrightarrow> v \<in> set (observed p) \<Longrightarrow> v \<in> set (videos p)"
  "controlled strict p \<Longrightarrow> current p = Some c \<Longrightarrow> c \<in> set (videos p)"
  "controlled True p \<Longrightarrow> \<not> paused p w \<Longrightarrow> w \<in> set (videos p)"
  unfolding controlled_def by blast+

lemma all_in_order_append:
  "all_in_order strict (cs @ ds) p
     \<longleftrightarrow> all_in_order strict cs p \<and> all_in_order strict ds (fold exec cs p)"
  by (induction cs arbitrary: p) auto

lemma controlled_fold:
  "controlled strict p \<Longrightarrow> all_in_order strict cs p \<Longrightarrow> controlled strict (fold exec cs p)"
proof (induction cs arbitrary: p)
  case Nil
  then show ?case by simp
next
  case (Cons c cs)
  from Cons.prems have "controlled strict (exec c p)"
    by (simp add: controlled_exec)
  moreover from Cons.prems have "all_in_order strict cs (exec c p)"
    by simp
  ultimately have "controlled strict (fold exec cs (exec c p))"
    by (rule Cons.IH)
  then show ?case by simp
qed

lemma controlled_states:
  "controlled strict p \<Longrightarrow> all_in_order strict cs p \<Longrightarrow> q \<in> set (states cs p)
   \<Longrightarrow> controlled strict q"
proof (induction cs arbitrary: p)
  case Nil
  then show ?case by simp
next
  case (Cons c cs)
  from Cons.prems have next_ok: "controlled strict (exec c p)"
    by (simp add: controlled_exec)
  from Cons.prems have "q = exec c p \<or> q \<in> set (states cs (exec c p))"
    by simp
  then show ?case
  proof
    assume "q = exec c p"
    with next_ok show ?thesis by simp
  next
    assume "q \<in> set (states cs (exec c p))"
    with Cons.IH[OF next_ok] Cons.prems(2) show ?thesis by simp
  qed
qed

lemma in_order_at_play:
  "all_in_order strict (pre @ c # post) p \<Longrightarrow> in_order strict c (fold exec pre p)"
  by (simp add: all_in_order_append)

lemma in_order_member:
  "all_in_order strict cs p \<Longrightarrow> c \<in> set cs \<Longrightarrow> \<exists>q. in_order strict c q \<and> videos q = videos p"
proof (induction cs arbitrary: p)
  case Nil
  then show ?case by simp
next
  case (Cons a cs)
  show ?case
  proof (cases "c = a")
    case True
    with Cons.prems show ?thesis by auto
  next
    case False
    with Cons.prems have "all_in_order strict cs (exec a p)" "c \<in> set cs" by auto
    from Cons.IH[OF this] show ?thesis by simp
  qed
qed

subsection \<open>What the playback handlers issue\<close>

lemma pause_others_in_order:
  "set vs \<subseteq> set (videos p) \<Longrightarrow> all_in_order strict (pause_others vs vid p) p"
  by (induction vs arbitrary: p) auto

lemma pause_others_result:
  "fold exec (pause_others vs vid p) p
     = p\<lparr>paused := \<lambda>w. paused p w \<or> (w \<in> set vs \<and> w \<noteq> vid)\<rparr>"
proof (induction vs arbitrary: p)
  case Nil
  show ?case by simp
next
  case (Cons v vs)
  show ?case
  proof (cases "v \<noteq> vid \<and> \<not> paused p v")
    case True
    then have "fold exec (pause_others (v # vs) vid p) p
                 = fold exec (pause_others vs vid (exec (Pause v) p)) (exec (Pause v) p)"
      by simp
    also have "\<dots> = (exec (Pause v) p)\<lparr>paused :=
                 \<lambda>w. paused (exec (Pause v) p) w \<or> (w \<in> set vs \<and> w \<noteq> vid)\<rparr>"
      by (rule Cons.IH)
    also have "\<dots> = p\<lparr>paused := \<lambda>w. (w = v \<or> paused p w) \<or> (w \<in> set vs \<and> w \<noteq> vid)\<rparr>"
    proof -
      have "(\<lambda>w. w \<noteq> v \<longrightarrow> paused p w \<or> w \<in> set vs \<and> w \<noteq> vid)
              = (\<lambda>w. (w = v \<or> paused p w) \<or> (w \<in> set vs \<and> w \<noteq> vid))"
        by auto
      then show ?thesis by (simp add: fun_upd_def)
    qed
    also have "(\<lambda>w. (w = v \<or> paused p w) \<or> (w \<in> set vs \<and> w \<noteq> vid))
                 = (\<lambda>w. paused p w \<or> (w \<in> set (v # vs) \<and> w \<noteq> vid))"
      using True by auto
    finally show ?thesis .
  next
    case False
    then have "fold exec (pause_others (v # vs) vid p) p = fold exec (pause_others vs vid p) p"
      by auto
    also have "\<dots> = p\<lparr>paused := \<lambda>w. paused p w \<or> (w \<in> set vs \<and> w \<noteq> vid)\<rparr>"
      by (rule Cons.IH)
    also have "(\<lambda>w. paused p w \<or> (w \<in> set vs \<and> w \<noteq> vid))
                 = (\<lambda>w. paused p w \<or> (w \<in> set (v # vs) \<and> w \<noteq> vid))"
      using False by auto
    finally show ?thesis .
  qed
qed

text \<open>The state after a dominant entry.\<close>

lemma on_entry_dominant:
  assumes "dominant e"
  shows "fold exec (on_entry e p) p
     = p\<lparr>paused := \<lambda>w. if w = target e then (if autoplay e then False else paused p w)
                         else paused p w \<or> w \<in> set (videos p) \<or> current p = Some w,
          current := Some (target e)\<rparr>"
proof (cases "current p")
  case None
  with assms show ?thesis
    by (simp add: on_entry_def Let_def pause_others_result fun_eq_iff)
next
  case (Some c)
  with assms show ?thesis
    by (simp add: on_entry_def Let_def pause_others_result fun_eq_iff)
qed

lemma on_entry_in_order:
  assumes "controlled strict p" and "target e \<in> set (observed p)"
  shows "all_in_order strict (on_entry e p) p"
proof (cases "dominant e")
  case False
  from assms have "target e \<in> set (videos p)"
    by (rule controlled_videos(1))
  with False show ?thesis
    by (simp add: on_entry_def Let_def)
next
  case True
  let ?vid = "target e"
  let ?c1 = "case current p of Some c \<Rightarrow> if c \<noteq> ?vid then [Pause c] else [] | None \<Rightarrow> []"
  let ?p1 = "fold exec ?c1 p"
  let ?c2 = "pause_others (videos p) ?vid ?p1"
  let ?p2 = "fold exec ?c2 ?p1"
  have vid: "?vid \<in> set (videos p)"
    using assms by (rule controlled_videos(1))
  have c1: "all_in_order strict ?c1 p"
  proof (cases "current p")
    case None
    then show ?thesis by simp
  next
    case (Some c)
    with assms(1) have "c \<in> set (videos p)" by (simp add: controlled_videos(2))
    with Some show ?thesis by simp
  qed
  have c2: "all_in_order strict ?c2 ?p1"
    by (rule pause_others_in_order) simp
  have p1: "paused ?p1 w" if "paused p w" for w
    using that by (cases "current p") simp_all
  have others: "paused ?p2 w" if "strict" "w \<noteq> ?vid" for w
  proof (cases "w \<in> set (videos p)")
    case True
    with that show ?thesis by (simp add: pause_others_result)
  next
    case False
    have "paused p w"
    proof (rule ccontr)
      assume "\<not> paused p w"
      with assms(1) that(1) have "w \<in> set (videos p)"
        by (simp add: controlled_videos(3))
      with False show False by simp
    qed
    then have "paused ?p1 w" by (rule p1)
    then show ?thesis by (simp add: pause_others_result)
  qed
  have c3: "all_in_order strict [Assign_current (Some ?vid), Play ?vid (autoplay e)] ?p2"
    using vid others by simp
  have "on_entry e p = ?c1 @ ?c2 @ [Assign_current (Some ?vid), Play ?vid (autoplay e)]"
    using True by (simp add: on_entry_def Let_def)
  with c1 c2 c3 show ?thesis
    by (simp only: all_in_order_append fold_append comp_def)
qed

lemma intersectionObserver_in_order:
  "controlled strict p \<Longrightarrow> \<forall>e \<in> set es. target e \<in> set (observed p)
   \<Longrightarrow> all_in_order strict (intersectionObserver es p) p"
proof (induction es arbitrary: p)
  case Nil
  show ?case by simp
next
  case (Cons e es)
  have e: "all_in_order strict (on_entry e p) p"
    using Cons.prems by (simp add: on_entry_in_order)
  have "controlled strict (fold exec (on_entry e p) p)"
    using Cons.prems(1) e by (rule controlled_fold)
  moreover have "\<forall>e' \<in> set es. target e' \<in> set (observed (fold exec (on_entry e p) p))"
    using Cons.prems(2) by simp
  ultimately have "all_in_order strict (intersectionObserver es (fold exec (on_entry e p) p))
                     (fold exec (on_entry e p) p)"
    by (rule Cons.IH)
  with e show ?case
    by (simp add: Let_def all_in_order_append)
qed

lemma all_in_order_pauses:
  "set vs \<subseteq> set (videos p) \<Longrightarrow> all_in_order strict (map Pause vs @ [Assign_current None]) p"
  by (induction vs arbitrary: p) auto

lemma pause_all_in_order: "all_in_order strict (pause_all p) p"
  unfolding pause_all_def by (rule all_in_order_pauses) simp

lemma media_commands_in_order:
  "controlled strict p \<Longrightarrow> all_in_order strict (media_commands ev p) p"
  by (cases ev) (auto simp: pause_all_in_order intersectionObserver_in_order)

subsection \<open>Handlers that leave playback alone\<close>

lemma same_media_refl [simp]: "same_media p p"
  by (simp add: same_media_def)

lemma same_media_trans: "same_media p q \<Longrightarrow> same_media q r \<Longrightarrow> same_media p r"
  by (simp add: same_media_def)

lemma same_media_new_comment: "same_media p (new_comment d html p)"
  by (simp add: same_media_def new_comment_def Let_def split: option.splits)

lemma same_media_new_message: "same_media p (new_message d p)"
  by (simp add: same_media_def new_message_def Let_def split: option.splits)

lemma same_media_inserted: "same_media p (inserted parent k new p)"
  by (simp add: same_media_def inserted_def Let_def mutationObserver_eq split: option.splits)

lemma same_media_click_send: "same_media p (snd (click_send p))"
  by (simp add: same_media_def click_send_def Let_def split: option.splits)

lemma same_media_keypress: "same_media p (snd (keypress key p))"
  using same_media_click_send [of p]
  by (simp add: keypress_def split: option.splits)

lemma same_media_on_submit: "same_media p (snd (on_submit form p))"
  by (simp add: same_media_def on_submit_def Let_def split: option.splits)

lemma same_media_dispatch:
  assumes "\<And>q. same_media q (snd (h q))"
  shows "same_media p (snd (dispatch k h p))"
proof (induction k arbitrary: p)
  case 0
  show ?case by simp
next
  case (Suc k)
  obtain e q where hp: "h p = (e, q)" by (cases "h p")
  obtain e' r where dq: "dispatch k h q = (e', r)" by (cases "dispatch k h q")
  from assms[of p] hp have "same_media p q" by simp
  moreover from Suc.IH[of q] dq have "same_media q r" by simp
  ultimately have "same_media p r" by (rule same_media_trans)
  with hp dq show ?case by simp
qed

lemma step_same_media: "same_media (fold exec (media_commands ev p) p) (snd (step ev p))"
proof (cases ev)
  case (Inserted parent k new)
  then show ?thesis by (simp add: same_media_inserted)
next
  case (Typed i s)
  then show ?thesis by (simp add: same_media_def)
next
  case (New_comment d html)
  then show ?thesis by (simp add: same_media_new_comment)
next
  case (New_message d)
  then show ?thesis by (simp add: same_media_new_message)
next
  case Click_send
  then show ?thesis by (simp add: same_media_click_send split: option.splits)
next
  case (Keypress key)
  then show ?thesis by (simp add: same_media_keypress split: option.splits)
next
  case (Submit form)
  then show ?thesis by (simp add: same_media_dispatch same_media_on_submit)
next
  case (Intersection es)
  then show ?thesis by simp
next
  case (Visibilitychange hidden)
  then show ?thesis by simp
next
  case Blur
  then show ?thesis by simp
next
  case (Click_img i)
  then show ?thesis by simp
qed

lemma controlled_cong: "same_media p q \<Longrightarrow> controlled strict p \<Longrightarrow> controlled strict q"
  by (simp add: same_media_def controlled_def at_most_one_playing_def)

lemma controlled_step: "controlled strict p \<Longrightarrow> controlled strict (snd (step ev p))"
proof -
  assume ctl: "controlled strict p"
  then have "all_in_order strict (media_commands ev p) p"
    by (rule media_commands_in_order)
  with ctl have "controlled strict (fold exec (media_commands ev p) p)"
    by (rule controlled_fold)
  with step_same_media show ?thesis
    by (rule controlled_cong)
qed

lemma run_Cons: "run (ev # evs) p = run evs (snd (step ev p))"
  by (simp add: run_def)

lemma run_Nil: "run [] p = p"
  by (simp add: run_def)

lemma controlled_run: "controlled strict p \<Longrightarrow> controlled strict (run evs p)"
proof (induction evs arbitrary: p)
  case Nil
  then show ?case by (simp add: run_Nil)
next
  case (Cons ev evs)
  from Cons.prems have "controlled strict (snd (step ev p))"
    by (rule controlled_step)
  then have "controlled strict (run evs (snd (step ev p)))"
    by (rule Cons.IH)
  then show ?case by (simp only: run_Cons)
qed

lemma controlled_instants:
  "controlled strict p \<Longrightarrow> q \<in> set (instants evs p) \<Longrightarrow> controlled strict q"
proof (induction evs arbitrary: p)
  case Nil
  then show ?case by simp
next
  case (Cons ev evs)
  let ?p' = "snd (step ev p)"
  have ord: "all_in_order strict (media_commands ev p) p"
    using Cons.prems(1) by (rule media_commands_in_order)
  have nxt: "controlled strict ?p'"
    using Cons.prems(1) by (rule controlled_step)
  from Cons.prems(2) have "q = ?p' \<or> q \<in> set (states (media_commands ev p) p)
                            \<or> q \<in> set (instants evs ?p')"
    by (simp del: step.simps)
  then show ?case
  proof (elim disjE)
    assume "q = ?p'"
    with nxt show ?thesis by simp
  next
    assume "q \<in> set (states (media_commands ev p) p)"
    with Cons.prems(1) ord show ?thesis by (rule controlled_states)
  next
    assume "q \<in> set (instants evs ?p')"
    with nxt show ?thesis by (rule Cons.IH)
  qed
qed

subsection \<open>The loaded page\<close>

lemma loaded_videos:
  "videos (DOMContentLoaded p)
     = map ident (select_inside (has_class ''post'') (has_name ''video'') False (document p))"
  by (simp add: DOMContentLoaded_def Let_def)

lemma loaded_observed: "observed (DOMContentLoaded p) = videos (DOMContentLoaded p)"
  by (simp add: DOMContentLoaded_def Let_def)

lemma loaded_current: "current (DOMContentLoaded p) = None"
  by (simp add: DOMContentLoaded_def Let_def)

lemma loaded_paused:
  "paused (DOMContentLoaded p) v \<longleftrightarrow> v \<in> set (videos (DOMContentLoaded p)) \<or> paused p v"
  by (simp add: DOMContentLoaded_def Let_def)

lemma loaded_img_listeners:
  "img_listeners (DOMContentLoaded p)
     = map ident (select_inside (has_class ''post'') (has_name ''img'') False (document p))"
  by (simp add: DOMContentLoaded_def Let_def)

lemma loaded_controlled: "controlled False (DOMContentLoaded p)"
  by (simp add: controlled_def loaded_observed loaded_current)

lemma loaded_controlled_strict:
  assumes "\<And>v. v \<notin> set (videos (DOMContentLoaded p)) \<Longrightarrow> paused p v"
  shows "controlled True (DOMContentLoaded p)"
proof -
  have all: "paused (DOMContentLoaded p) v" for v
    using assms[of v] by (simp only: loaded_paused) blast
  then show ?thesis
    by (simp add: controlled_def at_most_one_playing_def loaded_observed loaded_current)
qed

subsection \<open>Runs\<close>

lemma step_videos [simp]: "videos (snd (step ev p)) = videos p"
  using step_same_media [of ev p] by (simp add: same_media_def del: step.simps)

lemma step_observed [simp]: "observed (snd (step ev p)) = observed p"
  using step_same_media [of ev p] by (simp add: same_media_def del: step.simps)

lemma step_img_listeners [simp]: "img_listeners (snd (step ev p)) = img_listeners p"
  using step_same_media [of ev p] by (simp add: same_media_def del: step.simps)

lemma step_paused: "paused (snd (step ev p)) = paused (fold exec (media_commands ev p) p)"
  using step_same_media [of ev p] by (simp add: same_media_def del: step.simps)

lemma step_current: "current (snd (step ev p)) = current (fold exec (media_commands ev p) p)"
  using step_same_media [of ev p] by (simp add: same_media_def del: step.simps)

lemma run_videos [simp]: "videos (run evs p) = videos p"
  by (induction evs arbitrary: p) (simp_all add: run_Nil run_Cons del: step.simps)

lemma run_observed [simp]: "observed (run evs p) = observed p"
  by (induction evs arbitrary: p) (simp_all add: run_Nil run_Cons del: step.simps)

lemma run_img_listeners [simp]: "img_listeners (run evs p) = img_listeners p"
  by (induction evs arbitrary: p) (simp_all add: run_Nil run_Cons del: step.simps)

text \<open>A video outside the list keeps its state under commands that are in order.\<close>

lemma exec_outside:
  "in_order strict c p \<Longrightarrow> v \<notin> set (videos p) \<Longrightarrow> paused (exec c p) v = paused p v"
  by (cases c) auto

lemma fold_exec_outside:
  "all_in_order strict cs p \<Longrightarrow> v \<notin> set (videos p)
   \<Longrightarrow> paused (fold exec cs p) v = paused p v"
proof (induction cs arbitrary: p)
  case Nil
  show ?case by simp
next
  case (Cons c cs)
  from Cons.prems have "paused (fold exec cs (exec c p)) v = paused (exec c p) v"
    by (intro Cons.IH) simp_all
  also from Cons.prems have "\<dots> = paused p v"
    by (intro exec_outside[of strict]) simp_all
  finally show ?case by simp
qed

lemma step_outside:
  assumes "controlled strict p" and "v \<notin> set (videos p)"
  shows "paused (snd (step ev p)) v = paused p v"
proof -
  from assms(1) have "all_in_order strict (media_commands ev p) p"
    by (rule media_commands_in_order)
  from fold_exec_outside[OF this assms(2)] show ?thesis
    by (simp only: step_paused)
qed

lemma run_outside:
  "controlled strict p \<Longrightarrow> v \<notin> set (videos p) \<Longrightarrow> paused (run evs p) v = paused p v"
proof (induction evs arbitrary: p)
  case Nil
  show ?case by (simp add: run_Nil)
next
  case (Cons ev evs)
  have "controlled strict (snd (step ev p))"
    using Cons.prems(1) by (rule controlled_step)
  moreover have "v \<notin> set (videos (snd (step ev p)))"
    using Cons.prems(2) by simp
  ultimately have "paused (run evs (snd (step ev p))) v = paused (snd (step ev p)) v"
    by (rule Cons.IH)
  also have "\<dots> = paused p v"
    using Cons.prems by (rule step_outside)
  finally show ?case by (simp only: run_Cons)
qed

text \<open>Every command of a run addresses a video of the list.\<close>

lemma issued_in_order:
  "controlled strict p \<Longrightarrow> c \<in> set (issued evs p)
   \<Longrightarrow> \<exists>q. in_order strict c q \<and> videos q = videos p"
proof (induction evs arbitrary: p)
  case Nil
  then show ?case by simp
next
  case (Cons ev evs)
  from Cons.prems(2) have "c \<in> set (media_commands ev p) \<or> c \<in> set (issued evs (snd (step ev p)))"
    by (simp del: step.simps)
  then show ?case
  proof
    assume here: "c \<in> set (media_commands ev p)"
    from Cons.prems(1) have "all_in_order strict (media_commands ev p) p"
      by (rule media_commands_in_order)
    from in_order_member[OF this here] show ?thesis .
  next
    assume later: "c \<in> set (issued evs (snd (step ev p)))"
    have "controlled strict (snd (step ev p))"
      using Cons.prems(1) by (rule controlled_step)
    from Cons.IH[OF this later] obtain q
      where "in_order strict c q" "videos q = videos (snd (step ev p))" by blast
    then have "in_order strict c q \<and> videos q = videos p" by simp
    then show ?thesis by (rule exI)
  qed
qed

lemma controlled_at_most_one: "controlled True p \<Longrightarrow> at_most_one_playing p"
  by (simp add: controlled_def)

subsection \<open>One video of the list at a time\<close>

lemma all_exclusive_append:
  "all_exclusive (cs @ ds) p \<longleftrightarrow> all_exclusive cs p \<and> all_exclusive ds (fold exec cs p)"
  by (induction cs arbitrary: p) simp_all

lemma exclusive_at_play:
  "all_exclusive (pre @ c # post) p \<Longrightarrow> exclusive c (fold exec pre p)"
  by (simp add: all_exclusive_append)

lemma pause_others_exclusive: "all_exclusive (pause_others vs vid p) p"
  by (induction vs arbitrary: p) simp_all

lemma pauses_exclusive: "all_exclusive (map Pause vs @ [Assign_current c]) p"
  by (induction vs arbitrary: p) simp_all

lemma pause_all_exclusive: "all_exclusive (pause_all p) p"
  unfolding pause_all_def by (rule pauses_exclusive)

text \<open>Line 110 is what makes the \<^verbatim>\<open>play()\<close> of line 112 exclusive: the state the handler
  starts in is arbitrary.\<close>

lemma on_entry_exclusive: "all_exclusive (on_entry e p) p"
proof (cases "dominant e")
  case False
  then show ?thesis
    by (simp add: on_entry_def Let_def)
next
  case True
  let ?vid = "target e"
  let ?c1 = "case current p of Some c \<Rightarrow> if c \<noteq> ?vid then [Pause c] else [] | None \<Rightarrow> []"
  let ?p1 = "fold exec ?c1 p"
  let ?c2 = "pause_others (videos p) ?vid ?p1"
  let ?p2 = "fold exec ?c2 ?p1"
  have c1: "all_exclusive ?c1 p"
    by (cases "current p") simp_all
  have c2: "all_exclusive ?c2 ?p1"
    by (rule pause_others_exclusive)
  have others: "paused ?p2 w" if "w \<in> set (videos p)" "w \<noteq> ?vid" for w
    using that by (simp add: pause_others_result)
  have c3: "all_exclusive [Assign_current (Some ?vid), Play ?vid (autoplay e)] ?p2"
    using others by simp
  have "on_entry e p = ?c1 @ ?c2 @ [Assign_current (Some ?vid), Play ?vid (autoplay e)]"
    using True by (simp add: on_entry_def Let_def)
  with c1 c2 c3 show ?thesis
    by (simp only: all_exclusive_append fold_append comp_def)
qed

lemma intersectionObserver_exclusive: "all_exclusive (intersectionObserver es p) p"
  by (induction es arbitrary: p) (simp_all add: Let_def all_exclusive_append on_entry_exclusive)

lemma media_commands_exclusive: "all_exclusive (media_commands ev p) p"
  by (cases ev) (simp_all add: pause_all_exclusive intersectionObserver_exclusive)

lemma listed_exec:
  assumes inv: "at_most_one_listed p" and ex: "exclusive c p"
  shows "at_most_one_listed (exec c p)"
proof (cases c)
  case (Pause v)
  have "a = b"
    if "a \<in> set (videos p)" "b \<in> set (videos p)"
       "\<not> ((paused p)(v := True)) a" "\<not> ((paused p)(v := True)) b" for a b
  proof -
    from that(3) have "\<not> paused p a" by (simp split: if_splits)
    moreover from that(4) have "\<not> paused p b" by (simp split: if_splits)
    ultimately show ?thesis
      using inv that(1,2) unfolding at_most_one_listed_def by blast
  qed
  with Pause show ?thesis
    unfolding at_most_one_listed_def by simp
next
  case (Play v ok)
  show ?thesis
  proof (cases ok)
    case False
    with Play inv show ?thesis by simp
  next
    case True
    from ex Play have rest: "paused p w" if "w \<in> set (videos p)" "w \<noteq> v" for w
      using that by simp
    have "a = b"
      if "a \<in> set (videos p)" "b \<in> set (videos p)"
         "\<not> ((paused p)(v := False)) a" "\<not> ((paused p)(v := False)) b" for a b
    proof -
      have "a = v"
        using rest [of a] that(1,3) by (cases "a = v") simp_all
      moreover have "b = v"
        using rest [of b] that(2,4) by (cases "b = v") simp_all
      ultimately show ?thesis by simp
    qed
    with Play True show ?thesis
      unfolding at_most_one_listed_def by simp
  qed
next
  case (Assign_current x)
  with inv show ?thesis
    by (simp add: at_most_one_listed_def)
qed

lemma listed_fold:
  "at_most_one_listed p \<Longrightarrow> all_exclusive cs p \<Longrightarrow> at_most_one_listed (fold exec cs p)"
proof (induction cs arbitrary: p)
  case Nil
  then show ?case by simp
next
  case (Cons c cs)
  from Cons.prems have "at_most_one_listed (exec c p)"
    by (simp add: listed_exec)
  moreover from Cons.prems have "all_exclusive cs (exec c p)"
    by simp
  ultimately have "at_most_one_listed (fold exec cs (exec c p))"
    by (rule Cons.IH)
  then show ?case by simp
qed

lemma listed_states:
  "at_most_one_listed p \<Longrightarrow> all_exclusive cs p \<Longrightarrow> q \<in> set (states cs p)
   \<Longrightarrow> at_most_one_listed q"
proof (induction cs arbitrary: p)
  case Nil
  then show ?case by simp
next
  case (Cons c cs)
  from Cons.prems have next_ok: "at_most_one_listed (exec c p)"
    by (simp add: listed_exec)
  from Cons.prems have "q = exec c p \<or> q \<in> set (states cs (exec c p))"
    by simp
  then show ?case
  proof
    assume "q = exec c p"
    with next_ok show ?thesis by simp
  next
    assume "q \<in> set (states cs (exec c p))"
    with Cons.IH[OF next_ok] Cons.prems(2) show ?thesis by simp
  qed
qed

lemma listed_cong: "same_media p q \<Longrightarrow> at_most_one_listed p \<Longrightarrow> at_most_one_listed q"
  by (simp add: same_media_def at_most_one_listed_def)

lemma listed_step: "at_most_one_listed p \<Longrightarrow> at_most_one_listed (snd (step ev p))"
proof -
  assume inv: "at_most_one_listed p"
  have "all_exclusive (media_commands ev p) p"
    by (rule media_commands_exclusive)
  with inv have "at_most_one_listed (fold exec (media_commands ev p) p)"
    by (rule listed_fold)
  with step_same_media show ?thesis
    by (rule listed_cong)
qed

lemma listed_instants:
  "at_most_one_listed p \<Longrightarrow> q \<in> set (instants evs p) \<Longrightarrow> at_most_one_listed q"
proof (induction evs arbitrary: p)
  case Nil
  then show ?case by simp
next
  case (Cons ev evs)
  let ?p' = "snd (step ev p)"
  have ord: "all_exclusive (media_commands ev p) p"
    by (rule media_commands_exclusive)
  have nxt: "at_most_one_listed ?p'"
    using Cons.prems(1) by (rule listed_step)
  from Cons.prems(2) have "q = ?p' \<or> q \<in> set (states (media_commands ev p) p)
                            \<or> q \<in> set (instants evs ?p')"
    by (simp del: step.simps)
  then show ?case
  proof (elim disjE)
    assume "q = ?p'"
    with nxt show ?thesis by simp
  next
    assume "q \<in> set (states (media_commands ev p) p)"
    with Cons.prems(1) ord show ?thesis by (rule listed_states)
  next
    assume "q \<in> set (instants evs ?p')"
    with nxt show ?thesis by (rule Cons.IH)
  qed
qed

lemma loaded_listed: "at_most_one_listed (DOMContentLoaded p)"
proof -
  have "paused (DOMContentLoaded p) v" if "v \<in> set (videos (DOMContentLoaded p))" for v
    using that by (simp only: loaded_paused) simp
  then show ?thesis
    unfolding at_most_one_listed_def by blast
qed

text \<open>When nothing outside the list is playing as the script loads, the list is all that
  ever plays; then at most one video plays at all, in every state the page goes through.\<close>

lemma closed_feed_one_playing:
  assumes "\<forall>v. v \<notin> set (videos (DOMContentLoaded p0)) \<longrightarrow> paused p0 v"
    and "q \<in> set (DOMContentLoaded p0 # instants evs (DOMContentLoaded p0))"
  shows "at_most_one_playing q"
proof -
  let ?p = "DOMContentLoaded p0"
  have start: "controlled True ?p"
    using assms(1) by (intro loaded_controlled_strict) blast
  from assms(2) have "q = ?p \<or> q \<in> set (instants evs ?p)" by simp
  then have "controlled True q"
  proof
    assume "q = ?p"
    with start show ?thesis by simp
  next
    assume "q \<in> set (instants evs ?p)"
    with start show ?thesis by (rule controlled_instants)
  qed
  then show ?thesis by (rule controlled_at_most_one)
qed

text \<open>
  Claim C1, amended.  Of the videos that were under a post when the script loaded (the list
  \<open>videos\<close>), at most one is playing in every state the page goes through from the load on:
  after each \<^verbatim>\<open>pause()\<close>, \<^verbatim>\<open>play()\<close> and assignment to \<open>current\<close>, and after each event.  The
  same holds from any state in which at most one of them is playing.  In any state
  whatever, with any number of them playing, a \<^verbatim>\<open>play()\<close> is called only when every other
  video of the list is paused; an observed video that is reported above the threshold gets
  its \<^verbatim>\<open>play()\<close> as the last command, and no other video of the list is playing after the
  report.
\<close>

theorem listed_videos_one_at_a_time:
  "(\<forall>q \<in> set (DOMContentLoaded p0 # instants evs (DOMContentLoaded p0)). at_most_one_listed q)
   \<and> (at_most_one_listed p \<longrightarrow> (\<forall>q \<in> set (instants evs p). at_most_one_listed q))
   \<and> (\<forall>ev pre v ok post.
         media_commands ev p = pre @ Play v ok # post
         \<longrightarrow> (\<forall>w \<in> set (videos p). w \<noteq> v \<longrightarrow> paused (fold exec pre p) w))
   \<and> (dominant e \<and> target e \<in> set (observed p) \<longrightarrow>
         (\<exists>pre. media_commands (Intersection [e]) p = pre @ [Play (target e) (autoplay e)])
       \<and> (\<forall>w \<in> set (videos p). w \<noteq> target e
            \<longrightarrow> paused (snd (step (Intersection [e]) p)) w))"
proof (intro conjI ballI allI impI)
  fix q assume "q \<in> set (DOMContentLoaded p0 # instants evs (DOMContentLoaded p0))"
  then have "q = DOMContentLoaded p0 \<or> q \<in> set (instants evs (DOMContentLoaded p0))"
    by simp
  then show "at_most_one_listed q"
  proof
    assume "q = DOMContentLoaded p0"
    then show ?thesis by (simp only: loaded_listed)
  next
    assume "q \<in> set (instants evs (DOMContentLoaded p0))"
    with loaded_listed show ?thesis by (rule listed_instants)
  qed
next
  fix q assume "at_most_one_listed p" and "q \<in> set (instants evs p)"
  then show "at_most_one_listed q" by (rule listed_instants)
next
  fix ev pre v ok post w
  assume split: "media_commands ev p = pre @ Play v ok # post"
    and w: "w \<in> set (videos p)" "w \<noteq> v"
  have "all_exclusive (media_commands ev p) p"
    by (rule media_commands_exclusive)
  then have "all_exclusive (pre @ Play v ok # post) p"
    by (simp only: split)
  then have "exclusive (Play v ok) (fold exec pre p)"
    by (rule exclusive_at_play)
  with w show "paused (fold exec pre p) w" by simp
next
  assume a: "dominant e \<and> target e \<in> set (observed p)"
  let ?c1 = "case current p of Some c \<Rightarrow> if c \<noteq> target e then [Pause c] else []
             | None \<Rightarrow> []"
  have "media_commands (Intersection [e]) p
          = (?c1 @ pause_others (videos p) (target e) (fold exec ?c1 p)
               @ [Assign_current (Some (target e))]) @ [Play (target e) (autoplay e)]"
    using a by (simp add: on_entry_def Let_def)
  then show "\<exists>pre. media_commands (Intersection [e]) p = pre @ [Play (target e) (autoplay e)]"
    by (rule exI)
next
  fix w
  assume a: "dominant e \<and> target e \<in> set (observed p)"
    and w: "w \<in> set (videos p)" "w \<noteq> target e"
  from a have cmds: "media_commands (Intersection [e]) p = on_entry e p"
    by simp
  from a have dom: "dominant e" by simp
  show "paused (snd (step (Intersection [e]) p)) w"
    using w by (simp only: step_paused cmds on_entry_dominant [OF dom]) simp
qed

text \<open>
  Claim C10.  A video that was not under a post when the script loaded never takes part:
  the registration hook does nothing, the list of videos stays the one captured at
  load, the video is never among the observer's targets, no \<^verbatim>\<open>pause()\<close> and no \<^verbatim>\<open>play()\<close> is
  ever called on it, and its paused state is after any run what it was before the load.
\<close>

theorem late_video_untouched:
  assumes "v \<notin> set (videos (DOMContentLoaded p0))"
  shows "observeVideo v (run evs (DOMContentLoaded p0)) = run evs (DOMContentLoaded p0)
       \<and> videos (run evs (DOMContentLoaded p0))
           = map ident (select_inside (has_class ''post'') (has_name ''video'') False (document p0))
       \<and> v \<notin> set (observed (run evs (DOMContentLoaded p0)))
       \<and> Pause v \<notin> set (issued evs (DOMContentLoaded p0))
       \<and> Play v ok \<notin> set (issued evs (DOMContentLoaded p0))
       \<and> paused (run evs (DOMContentLoaded p0)) v = paused p0 v"
proof (intro conjI)
  let ?p = "DOMContentLoaded p0"
  have start: "controlled False ?p" by (rule loaded_controlled)
  show "observeVideo v (run evs ?p) = run evs ?p"
    by (simp add: observeVideo_def)
  show "videos (run evs ?p)
          = map ident (select_inside (has_class ''post'') (has_name ''video'') False (document p0))"
    by (simp add: loaded_videos)
  show "v \<notin> set (observed (run evs ?p))"
    using assms by (simp add: loaded_observed)
  show "Pause v \<notin> set (issued evs ?p)"
  proof
    assume "Pause v \<in> set (issued evs ?p)"
    from issued_in_order[OF start this] obtain q
      where "in_order False (Pause v) q" "videos q = videos ?p" by blast
    with assms show False by simp
  qed
  show "Play v ok \<notin> set (issued evs ?p)"
  proof
    assume "Play v ok \<in> set (issued evs ?p)"
    from issued_in_order[OF start this] obtain q
      where "in_order False (Play v ok) q" "videos q = videos ?p" by blast
    with assms show False by simp
  qed
  have "paused (run evs ?p) v = paused ?p v"
    using start assms by (rule run_outside)
  also have "\<dots> = paused p0 v"
    using assms by (simp only: loaded_paused) simp
  finally show "paused (run evs ?p) v = paused p0 v" .
qed



lemma pause_all_result:
  "fold exec (pause_all p) p = p\<lparr>paused := \<lambda>w. paused p w \<or> w \<in> set (videos p), current := None\<rparr>"
proof -
  have "fold exec (map Pause vs) p = p\<lparr>paused := \<lambda>w. paused p w \<or> w \<in> set vs\<rparr>" for vs
  proof (induction vs arbitrary: p)
    case Nil
    show ?case by simp
  next
    case (Cons v vs)
    have "(\<lambda>w. ((paused p)(v := True)) w \<or> w \<in> set vs)
            = (\<lambda>w. paused p w \<or> w \<in> set (v # vs))"
      by auto
    then show ?case by (simp add: Cons.IH)
  qed
  then show ?thesis by (simp add: pause_all_def)
qed

text \<open>
  Claim C7, amended.  When the page becomes hidden, when the window loses focus, and when
  an image is clicked that was under a post when the script loaded, every video that was
  under a post when the script loaded is paused and \<open>current\<close> is cleared.
\<close>

theorem global_pause:
  assumes "ev = Visibilitychange True \<or> ev = Blur
           \<or> (\<exists>i. ev = Click_img i \<and> i \<in> set (map ident
                 (select_inside (has_class ''post'') (has_name ''img'') False (document p0))))"
  shows "let q = snd (step ev (run evs (DOMContentLoaded p0)))
         in (\<forall>v \<in> set (map ident
                 (select_inside (has_class ''post'') (has_name ''video'') False (document p0))).
               paused q v)
            \<and> current q = None"
proof -
  let ?p = "run evs (DOMContentLoaded p0)"
  have imgs: "img_listeners ?p = map ident
                (select_inside (has_class ''post'') (has_name ''img'') False (document p0))"
    by (simp add: loaded_img_listeners)
  have vids: "videos ?p = map ident
                (select_inside (has_class ''post'') (has_name ''video'') False (document p0))"
    by (simp add: loaded_videos)
  have cmds: "media_commands ev ?p = pause_all ?p"
    using assms imgs by auto
  have "paused (snd (step ev ?p)) v" if "v \<in> set (videos ?p)" for v
    using that by (simp only: step_paused cmds pause_all_result) simp
  moreover have "current (snd (step ev ?p)) = None"
    by (simp only: step_current cmds pause_all_result) simp
  ultimately show ?thesis
    unfolding Let_def vids[symmetric] by blast
qed

subsection \<open>The playback properties on the feed page\<close>

lemma feed_page_media:
  "videos feed_page = [3, 11]" "observed feed_page = [3, 11]" "img_listeners feed_page = [4]"
  "current feed_page = None" "paused feed_page = (\<lambda>v. True)"
  by (simp_all add: page_defs selector_defs fun_eq_iff)

lemma feed_doc_media:
  "map ident (select_inside (has_class ''post'') (has_name ''video'') False
     (document (blank_page feed_doc))) = [3, 11]"
  "map ident (select_inside (has_class ''post'') (has_name ''img'') False
     (document (blank_page feed_doc))) = [4]"
  "paused (blank_page feed_doc) = (\<lambda>v. True)"
  by (simp_all add: page_defs selector_defs fun_eq_iff)

lemma entries_dominant: "dominant entry_three" "dominant entry_eleven" "dominant entry_late"
  by (simp_all add: dominant_def threshold_def entry_three_def entry_eleven_def entry_late_def)

lemma entries_fields:
  "target entry_three = 3" "target entry_eleven = 11" "target entry_late = 23"
  "autoplay entry_three" "autoplay entry_eleven" "autoplay entry_late"
  by (simp_all add: entry_three_def entry_eleven_def entry_late_def)



lemma after_late_events:
  "videos (run late_events feed_page) = [3, 11]"
  "img_listeners (run late_events feed_page) = [4]"
  "current (run late_events feed_page) = Some 3"
  "paused (run late_events feed_page) 3 = False"
  "paused (run late_events feed_page) 23 = True"
  "find_first (has_ident 22) (document (run late_events feed_page))
     = Some (Node 22 ''img'' [] [] [] [])"
  "find_first (has_ident 23) (document (run late_events feed_page))
     = Some (Node 23 ''video'' [] [] [] [])"
  by (simp_all add: late_events_def late_post_def entry_late_def entry_three_def
        inserted_def watched_def mutationObserver_eq bound_form_def insert_children_def
        on_entry_def dominant_def threshold_def pause_all_def
        page_defs selector_defs)


lemma run_in_instants: "evs \<noteq> [] \<Longrightarrow> run evs p \<in> set (instants evs p)"
proof (induction evs arbitrary: p)
  case Nil
  then show ?case by simp
next
  case (Cons ev evs)
  show ?case
  proof (cases "evs = []")
    case True
    then show ?thesis by (simp add: run_Cons run_Nil del: step.simps)
  next
    case False
    then have "run evs (snd (step ev p)) \<in> set (instants evs (snd (step ev p)))"
      by (rule Cons.IH)
    then show ?thesis by (simp add: run_Cons del: step.simps)
  qed
qed

lemma started_by_hand_media:
  "videos started_by_hand = [3, 11]" "observed started_by_hand = [3, 11]"
  "current started_by_hand = None" "paused started_by_hand = (\<lambda>v. v \<noteq> 3)"
  by (simp_all add: started_by_hand_def feed_page_media fun_eq_iff)

lemma late_playing_media:
  "videos late_playing = [3, 11]" "observed late_playing = [3, 11]"
  "current late_playing = None" "paused late_playing = (\<lambda>v. v \<noteq> 23)"
  by (simp_all add: late_playing_def feed_page_media run_Cons run_Nil step_paused step_current
        fun_eq_iff del: step.simps)

lemma late_playing_document:
  "map ident (select_inside (has_class ''post'') (has_name ''video'') False
     (document late_playing)) = [3, 11, 23]"
  by (simp add: late_playing_def late_post_def inserted_def watched_def mutationObserver_eq
        bound_form_def insert_children_def page_defs selector_defs)

text \<open>
  Claim C1, as stated, fails.  A post with a video has arrived after the load, and the user
  has started that video; it is under a post of the feed, and it is the only video that
  plays.  The observer reports another video above the threshold.  The handler pauses
  nothing, since no video of its list is playing, and calls \<^verbatim>\<open>play()\<close>: the late video is
  not paused before, and two videos of the feed play afterwards.
\<close>

theorem late_video_plays_on:
  "23 \<in> set (map ident (select_inside (has_class ''post'') (has_name ''video'') False
                 (document late_playing)))
   \<and> at_most_one_playing late_playing
   \<and> \<not> paused late_playing 23
   \<and> media_commands (Intersection [entry_eleven]) late_playing
       = [Assign_current (Some 11), Play 11 True]
   \<and> \<not> paused (snd (step (Intersection [entry_eleven]) late_playing)) 11
   \<and> \<not> paused (snd (step (Intersection [entry_eleven]) late_playing)) 23
   \<and> \<not> at_most_one_playing (snd (step (Intersection [entry_eleven]) late_playing))"
proof -
  let ?q = "snd (step (Intersection [entry_eleven]) late_playing)"
  have a: "23 \<in> set (map ident (select_inside (has_class ''post'') (has_name ''video'') False
                 (document late_playing)))"
    by (simp only: late_playing_document) simp
  have b: "at_most_one_playing late_playing"
    by (simp add: at_most_one_playing_def late_playing_media)
  have c: "\<not> paused late_playing 23"
    by (simp add: late_playing_media)
  have d: "media_commands (Intersection [entry_eleven]) late_playing
       = [Assign_current (Some 11), Play 11 True]"
    by (simp add: late_playing_media on_entry_def entries_dominant entries_fields Let_def)
  have e: "\<not> paused ?q 11"
    by (simp only: step_paused d) (simp add: late_playing_media)
  have f: "\<not> paused ?q 23"
    by (simp only: step_paused d) (simp add: late_playing_media)
  have g: "\<not> at_most_one_playing ?q"
  proof
    assume "at_most_one_playing ?q"
    then have "\<not> paused ?q 11 \<and> \<not> paused ?q 23 \<longrightarrow> (11::nat) = 23"
      unfolding at_most_one_playing_def by (elim allE)
    with e f show False by simp
  qed
  from a b c d e f g show ?thesis
    by (intro conjI)
qed

text \<open>Claim C1, amended, on the feed page.  The user has started the first video, so
  \<open>current\<close> is \<^verbatim>\<open>null\<close> while it plays; the second video is reported above the threshold.
  It is line 110 that pauses the first video, before \<^verbatim>\<open>play()\<close> is called on the second.\<close>

theorem listed_videos_one_at_a_time_witness:
  "at_most_one_listed started_by_hand
   \<and> \<not> paused started_by_hand 3
   \<and> current started_by_hand = None
   \<and> media_commands (Intersection [entry_eleven]) started_by_hand
       = [Pause 3, Assign_current (Some 11), Play 11 True]
   \<and> paused (fold exec [Pause 3, Assign_current (Some 11)] started_by_hand) 3
   \<and> paused (snd (step (Intersection [entry_eleven]) started_by_hand)) 3
   \<and> at_most_one_listed (snd (step (Intersection [entry_eleven]) started_by_hand))
   \<and> at_most_one_listed (run late_events feed_page)"
proof -
  let ?ev = "Intersection [entry_eleven]"
  let ?p = "started_by_hand"
  note inst = listed_videos_one_at_a_time [where ?p0.0 = "blank_page feed_doc"
      and evs = "[?ev]" and p = ?p and e = entry_eleven]
  note from_load = listed_videos_one_at_a_time [where ?p0.0 = "blank_page feed_doc"
      and evs = late_events and p = ?p and e = entry_eleven, THEN conjunct1,
      folded feed_page_def]
  have a: "at_most_one_listed ?p"
    by (simp add: at_most_one_listed_def started_by_hand_media)
  have b: "\<not> paused ?p 3" "current ?p = None"
    by (simp_all add: started_by_hand_media)
  have cmds: "media_commands ?ev ?p = [Pause 3, Assign_current (Some 11)] @ Play 11 True # []"
    by (simp add: started_by_hand_media on_entry_def entries_dominant entries_fields Let_def)
  have three: "(3::nat) \<in> set (videos ?p)" "(3::nat) \<noteq> 11"
    by (simp_all add: started_by_hand_media)
  have obs: "dominant entry_eleven \<and> target entry_eleven \<in> set (observed ?p)"
    by (simp add: entries_dominant entries_fields started_by_hand_media)
  from inst [THEN conjunct2, THEN conjunct2, THEN conjunct1] cmds
  have "\<forall>w \<in> set (videos ?p). w \<noteq> 11
          \<longrightarrow> paused (fold exec [Pause 3, Assign_current (Some 11)] ?p) w"
    by blast
  with three have c: "paused (fold exec [Pause 3, Assign_current (Some 11)] ?p) 3"
    by blast
  from inst [THEN conjunct2, THEN conjunct2, THEN conjunct2] obs
  have "\<forall>w \<in> set (videos ?p). w \<noteq> target entry_eleven \<longrightarrow> paused (snd (step ?ev ?p)) w"
    by blast
  with three have d: "paused (snd (step ?ev ?p)) 3"
    by (simp add: entries_fields del: step.simps)
  have "snd (step ?ev ?p) \<in> set (instants [?ev] ?p)"
    by (simp del: step.simps)
  with inst [THEN conjunct2, THEN conjunct1] a
  have e: "at_most_one_listed (snd (step ?ev ?p))"
    by blast
  have "late_events \<noteq> []"
    by (simp add: late_events_def)
  then have "run late_events feed_page \<in> set (feed_page # instants late_events feed_page)"
    by (simp add: run_in_instants)
  with from_load have f: "at_most_one_listed (run late_events feed_page)"
    by blast
  have cmds': "media_commands ?ev ?p = [Pause 3, Assign_current (Some 11), Play 11 True]"
    using cmds by simp
  from a b cmds' c d e f show ?thesis
    by (intro conjI)
qed

text \<open>Claim C10 on the feed page, for the video of the post that arrived later.\<close>

theorem late_video_untouched_witness:
  "23 \<notin> set (videos feed_page)
   \<and> find_first (has_ident 23) (document (run late_events feed_page))
       = Some (Node 23 ''video'' [] [] [] [])
   \<and> videos (run late_events feed_page) = [3, 11]
   \<and> 23 \<notin> set (observed (run late_events feed_page))
   \<and> Pause 23 \<notin> set (issued late_events feed_page)
   \<and> Play 23 True \<notin> set (issued late_events feed_page)
   \<and> paused (run late_events feed_page) 23"
proof -
  let ?p0 = "blank_page feed_doc"
  have out: "23 \<notin> set (videos (DOMContentLoaded ?p0))"
    by (simp add: feed_page_media [unfolded feed_page_def])
  note inst = late_video_untouched [OF out, of late_events True, folded feed_page_def]
  have out': "23 \<notin> set (videos feed_page)"
    by (simp add: feed_page_media)
  from inst have a: "videos (run late_events feed_page) = [3, 11]"
    by (simp add: feed_doc_media)
  from inst have b: "23 \<notin> set (observed (run late_events feed_page))"
    by blast
  from inst have c: "Pause 23 \<notin> set (issued late_events feed_page)"
    by blast
  from inst have d: "Play 23 True \<notin> set (issued late_events feed_page)"
    by blast
  from inst have "paused (run late_events feed_page) 23 = paused ?p0 23"
    by blast
  then have e: "paused (run late_events feed_page) 23"
    by (simp add: feed_doc_media)
  from out' after_late_events(7) a b c d e show ?thesis
    by (intro conjI)
qed

text \<open>
  Claim C7, as stated, fails.  A post with an image and a video arrives after the load; a
  video of the feed is playing.  A click on the late image has no listener: the video goes
  on playing and \<open>current\<close> stays.  And when the late video has been started by the
  user, \<^verbatim>\<open>blur\<close> leaves it playing, since it is not in the list captured at load.
\<close>

theorem late_image_click_pauses_nothing:
  "find_first (has_ident 22) (document (run late_events feed_page))
     = Some (Node 22 ''img'' [] [] [] [])
   \<and> \<not> paused (run late_events feed_page) 3
   \<and> \<not> paused (snd (step (Click_img 22) (run late_events feed_page))) 3
   \<and> current (snd (step (Click_img 22) (run late_events feed_page))) = Some 3
   \<and> find_first (has_ident 23) (document (run late_events feed_page))
       = Some (Node 23 ''video'' [] [] [] [])
   \<and> \<not> paused (snd (step Blur
          ((run late_events feed_page)
             \<lparr>paused := (paused (run late_events feed_page))(23 := False)\<rparr>))) 23"
proof -
  let ?q = "run late_events feed_page"
  let ?started = "?q\<lparr>paused := (paused ?q)(23 := False)\<rparr>"
  have none: "media_commands (Click_img 22) ?q = []"
    by (simp add: feed_page_media)
  have a: "\<not> paused ?q 3"
    by (simp add: after_late_events)
  have b: "\<not> paused (snd (step (Click_img 22) ?q)) 3"
    by (simp only: step_paused none) (simp add: after_late_events)
  have c: "current (snd (step (Click_img 22) ?q)) = Some 3"
    by (simp only: step_current none) (simp add: after_late_events)
  have vids: "videos ?started = [3, 11]"
    by (simp add: feed_page_media)
  have d: "\<not> paused (snd (step Blur ?started)) 23"
    by (simp only: step_paused media_commands.simps pause_all_result) (simp add: vids)
  from after_late_events(6) a b c after_late_events(7) d show ?thesis
    by (intro conjI)
qed

lemma one_playing_three: "paused one_playing 3 = False"
  by (simp add: one_playing_def entry_three_def on_entry_def dominant_def threshold_def
        page_defs selector_defs)

text \<open>Claim C7, amended, on the feed page with its first video playing.\<close>

theorem global_pause_witness:
  "4 \<in> set (map ident (select_inside (has_class ''post'') (has_name ''img'') False
                (document (blank_page feed_doc))))
   \<and> \<not> paused one_playing 3
   \<and> paused (snd (step (Click_img 4) one_playing)) 3
   \<and> current (snd (step (Click_img 4) one_playing)) = None
   \<and> paused (snd (step Blur one_playing)) 3
   \<and> current (snd (step Blur one_playing)) = None
   \<and> paused (snd (step (Visibilitychange True) one_playing)) 3
   \<and> current (snd (step (Visibilitychange True) one_playing)) = None"
proof -
  let ?p0 = "blank_page feed_doc"
  let ?imgs = "map ident (select_inside (has_class ''post'') (has_name ''img'') False
                 (document ?p0))"
  let ?vids = "map ident (select_inside (has_class ''post'') (has_name ''video'') False
                 (document ?p0))"
  have img: "4 \<in> set ?imgs"
    by (simp add: feed_doc_media)
  have vid: "3 \<in> set ?vids"
    by (simp add: feed_doc_media)
  have page: "run [Intersection [entry_three]] (DOMContentLoaded ?p0) = one_playing"
    by (simp add: one_playing_def feed_page_def)
  have e1: "Click_img 4 = Visibilitychange True \<or> Click_img 4 = Blur
            \<or> (\<exists>i. Click_img 4 = Click_img i \<and> i \<in> set ?imgs)"
    using img by blast
  have e2: "Blur = Visibilitychange True \<or> Blur = Blur
            \<or> (\<exists>i. Blur = Click_img i \<and> i \<in> set ?imgs)"
    by blast
  have e3: "Visibilitychange True = Visibilitychange True \<or> Visibilitychange True = Blur
            \<or> (\<exists>i. Visibilitychange True = Click_img i \<and> i \<in> set ?imgs)"
    by blast
  note t1 = global_pause [OF e1, of "[Intersection [entry_three]]", unfolded Let_def page]
  note t2 = global_pause [OF e2, of "[Intersection [entry_three]]", unfolded Let_def page]
  note t3 = global_pause [OF e3, of "[Intersection [entry_three]]", unfolded Let_def page]
  from t1 vid have a: "paused (snd (step (Click_img 4) one_playing)) 3"
    and a': "current (snd (step (Click_img 4) one_playing)) = None"
    by blast+
  from t2 vid have b: "paused (snd (step Blur one_playing)) 3"
    and b': "current (snd (step Blur one_playing)) = None"
    by blast+
  from t3 vid have c: "paused (snd (step (Visibilitychange True) one_playing)) 3"
    and c': "current (snd (step (Visibilitychange True) one_playing)) = None"
    by blast+
  have before: "\<not> paused one_playing 3"
    by (simp add: one_playing_three)
  from img before a a' b b' c c' show ?thesis
    by (intro conjI)
qed

end
